theory Spec2Isabelle
  imports Main "HOL-Library.AList"
begin

section \<open>The SQL generator of \<open>server/src/infra/sql-generator/index.ts\<close>\<close>

text \<open>
  The tool boots the application, walks a fixed list of repository classes, calls every
  method that carries \<open>GENERATE_SQL_KEY\<close> metadata, collects the SQL the logger
  recorded during each call, and writes one text file per entry of its result record.
  The embedding follows the source method by method: \<open>setup\<close>, \<open>process\<close>,
  \<open>runTargets\<close>, \<open>write\<close>, \<open>stats\<close>, \<open>close\<close>, \<open>run\<close> and the
  top-level invocation. The generator's fields, the console, the target directory and the
  database are one explicit state; every \<open>throw\<close> is the \<open>Inl\<close> branch of a
  result.
\<close>

subsection \<open>Strings\<close>

text \<open>
  Repository identifiers are class names, so they are modelled as ASCII strings. The
  regular expression \<open>/[A-Z]/g\<close> matches exactly the 26 capital letters, and
  \<open>toLowerCase\<close> is only ever applied to a matched letter.
\<close>

definition is_upper :: "char \<Rightarrow> bool" where
  "is_upper c = (c \<in> set ''ABCDEFGHIJKLMNOPQRSTUVWXYZ'')"

definition is_lower :: "char \<Rightarrow> bool" where
  "is_lower c = (c \<in> set ''abcdefghijklmnopqrstuvwxyz'')"

definition toLowerCase :: "char \<Rightarrow> char" where
  "toLowerCase c =
     (case map_of (zip ''ABCDEFGHIJKLMNOPQRSTUVWXYZ'' ''abcdefghijklmnopqrstuvwxyz'') c of
        Some l \<Rightarrow> l
      | None \<Rightarrow> c)"

text \<open>\<open>repoName.replaceAll(/[A-Z]/g, (letter) => `.${letter.toLowerCase()}`)\<close>\<close>

fun replaceAll_upper :: "string \<Rightarrow> string" where
  "replaceAll_upper [] = []"
| "replaceAll_upper (letter # rest) =
     (if is_upper letter then CHR ''.'' # toLowerCase letter # replaceAll_upper rest
      else letter # replaceAll_upper rest)"

text \<open>
  \<open>.replace('.', '')\<close> with a string pattern replaces the first occurrence of the
  pattern, wherever it is, and leaves a string without the pattern as it is.
\<close>

fun replace_dot :: "string \<Rightarrow> string" where
  "replace_dot [] = []"
| "replace_dot (c # cs) = (if c = CHR ''.'' then cs else c # replace_dot cs)"

definition filename :: "string \<Rightarrow> string" where
  "filename repoName = replace_dot (replaceAll_upper repoName)"

text \<open>The name under which \<open>write\<close> stores the entry: \<open>`${filename}.sql`\<close>.\<close>

definition sql_file :: "string \<Rightarrow> string" where
  "sql_file repoName = filename repoName @ ''.sql''"

text \<open>
  The rule as the specification words it, for comparison with \<open>filename\<close>: insert a
  separator before each uppercase letter, lowercase the whole thing, strip a leading
  separator.
\<close>

fun insert_separators :: "string \<Rightarrow> string" where
  "insert_separators [] = []"
| "insert_separators (c # cs) =
     (if is_upper c then CHR ''.'' # c # insert_separators cs else c # insert_separators cs)"

fun strip_leading_separator :: "string \<Rightarrow> string" where
  "strip_leading_separator [] = []"
| "strip_leading_separator (c # cs) = (if c = CHR ''.'' then cs else c # cs)"

definition spec_filename :: "string \<Rightarrow> string" where
  "spec_filename ident = strip_leading_separator (map toLowerCase (insert_separators ident))"

text \<open>\<open>Array.prototype.join\<close> on an array of strings.\<close>

fun join :: "string \<Rightarrow> string list \<Rightarrow> string" where
  "join sep [] = []"
| "join sep [x] = x"
| "join sep (x # y # ys) = x @ sep @ join sep (y # ys)"

text \<open>A number inside a template literal: its decimal digits.\<close>

fun digits :: "nat \<Rightarrow> string" where
  "digits n =
     (if n < 10 then [''0123456789'' ! n]
      else digits (n div 10) @ [''0123456789'' ! (n mod 10)])"

declare digits.simps [simp del]

subsection \<open>Capture metadata, methods and objects\<close>

text \<open>
  \<open>GenerateSqlQueries\<close> is one invocation case: an optional name and the arguments
  to pass. The type of an argument value is left open.
\<close>

record 'v GenerateSqlQueries =
  name :: "string option"
  params :: "'v list"

text \<open>
  What the expression \<open>target.apply(instance, params).catch(...)\<close> can meet: the call
  returns a promise that resolves or rejects, the call throws before it returns (a method
  that is not \<open>async\<close>), or it returns a value without a \<open>catch\<close> method. The
  string is the error as \<open>`${error}`\<close> renders it.
\<close>

datatype outcome = Resolved | Rejected string | Thrown string | NotAPromise

text \<open>
  The repository classes are declared in other files (\<open>src/repositories\<close>), so a
  method is a parameter: from its arguments and the database it gives the statements it
  issued (in order), how the call ended, and the database afterwards.
\<close>

type_synonym ('v, 'w) target_method = "'v list \<Rightarrow> 'w \<Rightarrow> (string list \<times> outcome) \<times> 'w"

text \<open>
  The value \<open>instance[key]\<close>: something that is no \<open>Function\<close>, or a function
  with what \<open>reflector.get(GENERATE_SQL_KEY, target)\<close> returns for it
  (\<open>None\<close> for \<open>undefined\<close>).
\<close>

datatype ('v, 'w) property =
  NotAFunction
| Function "'v GenerateSqlQueries list option" "('v, 'w) target_method"

text \<open>
  An object as \<open>runTargets\<close> sees it: the own property names of its prototype, in
  order, each with the value read through the instance.
\<close>

type_synonym ('v, 'w) object = "(string \<times> ('v, 'w) property) list"

definition getPropertyNames :: "('v, 'w) object \<Rightarrow> string list" where
  "getPropertyNames instance = map fst instance"

text \<open>
  A repository instance also has own enumerable properties (\<open>Object.keys(instance)\<close>);
  \<open>process\<close> walks them for the access repository, each as an object of its own.
\<close>

record ('v, 'w) repository_instance =
  prototype :: "('v, 'w) object"
  keys :: "(string \<times> ('v, 'w) object) list"

text \<open>The application context: \<open>app.get(Repository)\<close> resolves a class, given by its name.\<close>

record ('v, 'w) INestApplication =
  get :: "string \<Rightarrow> ('v, 'w) repository_instance"

subsection \<open>The logging shim\<close>

text \<open>
  Modelled from the spec: the class \<open>SqlLogger\<close> of
  \<open>src/infra/sql-generator/sql.logger\<close> is missing from the sources. The spec gives
  it an ordered buffer, \<open>record(sql)\<close> that appends the statement text, and
  \<open>clear()\<close> that empties the buffer.
\<close>

record SqlLogger =
  queries :: "string list"

definition clear :: "SqlLogger \<Rightarrow> SqlLogger" where
  "clear l = l\<lparr>queries := []\<rparr>"

definition logQuery :: "SqlLogger \<Rightarrow> string \<Rightarrow> SqlLogger" where
  "logQuery l sql = l\<lparr>queries := queries l @ [sql]\<rparr>"

subsection \<open>State, errors and the environment\<close>

datatype error =
  NotInitialized  \<comment> \<open>\<open>new Error('Not initialized')\<close>\<close>
| TypeError  \<comment> \<open>\<open>.catch\<close> read from a value that has none\<close>
| Raised string  \<comment> \<open>an error thrown by a collaborator\<close>

datatype line = Log string | Warn string | Err string

text \<open>
  What is observed of a run besides the fields of the generator: which calls were made,
  with the label, the property name and the arguments, and the calls of \<open>close\<close>
  and of \<open>app.close()\<close>.
\<close>

datatype 'v event = Invoke string string "'v list" | Teardown | AppClose

text \<open>The calls into the file system and the framework that can fail.\<close>

datatype step = Rm | Mkdir | Init | WriteFile string | Close

text \<open>
  The environment of one run: which of these calls fails, with which error, and the
  application context that \<open>setup\<close> obtains when nothing fails.
\<close>

record ('v, 'w) environment =
  fails :: "step \<Rightarrow> string option"
  application :: "('v, 'w) INestApplication"

text \<open>
  The fields of the class (\<open>app\<close>, \<open>sqlLogger\<close>, \<open>results\<close>) and the world
  around it. \<open>results\<close> is a JavaScript object with string keys: an assignment to a
  new key adds it at the end, an assignment to a present key keeps its place, which is
  what \<open>AList.update\<close> does. \<open>files\<close> is the target directory: \<open>None\<close>
  when it does not exist, otherwise its files by name.
\<close>

record ('v, 'w) SqlGenerator =
  app :: "('v, 'w) INestApplication option"
  sqlLogger :: SqlLogger
  results :: "(string \<times> string list) list"
  console :: "line list"
  files :: "(string \<rightharpoonup> string) option"
  world :: 'w
  trace :: "'v event list"

type_synonym ('v, 'w) result = "(error + string list) \<times> ('v, 'w) SqlGenerator"

type_synonym ('v, 'w) completion = "(error + unit) \<times> ('v, 'w) SqlGenerator"

subsection \<open>The fixed target list\<close>

definition repositories :: "string list" where
  "repositories =
     [''AccessRepository'', ''AlbumRepository'', ''ApiKeyRepository'', ''AssetRepository'',
      ''AuditRepository'', ''LibraryRepository'', ''MoveRepository'', ''PartnerRepository'',
      ''PersonRepository'', ''SharedLinkRepository'', ''SearchRepository'',
      ''SystemConfigRepository'', ''SystemMetadataRepository'', ''TagRepository'',
      ''UserTokenRepository'', ''UserRepository'']"

subsection \<open>\<open>runTargets\<close>\<close>

text \<open>
  \<open>let queryLabel = `${label}.${key}`; if (name) { queryLabel += ` (${name})`; }\<close>:
  a missing name and the empty name are both falsy.
\<close>

definition queryLabel :: "string \<Rightarrow> string \<Rightarrow> string option \<Rightarrow> string" where
  "queryLabel label key nm =
     (label @ ''.'' @ key) @
     (case nm of
        None \<Rightarrow> []
      | Some n \<Rightarrow> if n = [] then [] else '' ('' @ n @ '')'')"

text \<open>\<open>[`-- ${queryLabel}`, ...this.sqlLogger.queries].join('\n')\<close>\<close>

definition block :: "string \<Rightarrow> string list \<Rightarrow> string" where
  "block ql stmts = join [CHR 0x0A] ((''-- '' @ ql) # stmts)"

text \<open>
  Lines 140 to 143, for one case: clear the logger, call the method (the logger records
  what it issues), and attach the \<open>catch\<close> handler. A rejection prints the error and
  is over; a throw of the call itself, or a result without \<open>catch\<close>, leaves
  \<open>runTargets\<close> as an exception.
\<close>

definition invoke_case ::
  "string \<Rightarrow> string \<Rightarrow> ('v, 'w) target_method \<Rightarrow> 'v GenerateSqlQueries \<Rightarrow>
   ('v, 'w) SqlGenerator \<Rightarrow> ('v, 'w) completion" where
  "invoke_case label key target q s =
     (let s1 = s\<lparr>sqlLogger := clear (sqlLogger s)\<rparr>;
          called = target (params q) (world s1);
          s2 = s1\<lparr>sqlLogger := foldl logQuery (sqlLogger s1) (fst (fst called)),
                  world := snd called,
                  trace := trace s1 @ [Invoke label key (params q)]\<rparr>
      in case snd (fst called) of
           Resolved \<Rightarrow> (Inr (), s2)
         | Rejected e \<Rightarrow>
             (Inr (), s2\<lparr>console := console s2 @
                 [Err (queryLabel label key (name q) @ '' error: '' @ e)]\<rparr>)
         | Thrown e \<Rightarrow> (Inl (Raised e), s2)
         | NotAPromise \<Rightarrow> (Inl TypeError, s2))"

text \<open>The loop \<open>for (const { name, params } of queries)\<close>, pushing onto \<open>data\<close>.\<close>

fun run_queries ::
  "string \<Rightarrow> string \<Rightarrow> ('v, 'w) target_method \<Rightarrow> 'v GenerateSqlQueries list \<Rightarrow>
   string list \<Rightarrow> ('v, 'w) SqlGenerator \<Rightarrow> ('v, 'w) result" where
  "run_queries label key target [] data s = (Inr data, s)"
| "run_queries label key target (q # rest) data s =
     (case invoke_case label key target q s of
        (Inl e, s') \<Rightarrow> (Inl e, s')
      | (Inr _, s') \<Rightarrow>
          if length (queries (sqlLogger s')) = 0
          then run_queries label key target rest data
                 (s'\<lparr>console := console s' @
                    [Warn (''No queries recorded for '' @ queryLabel label key (name q))]\<rparr>)
          else run_queries label key target rest
                 (data @ [block (queryLabel label key (name q)) (queries (sqlLogger s'))]) s')"

text \<open>
  \<open>if (queries.length === 0) { queries.push({ params: [] }); }\<close>. The push is on the
  array the metadata holds; the case it adds is the one the loop then runs.
\<close>

definition default_case :: "'v GenerateSqlQueries list \<Rightarrow> 'v GenerateSqlQueries list" where
  "default_case qs = (if length qs = 0 then qs @ [\<lparr>name = None, params = []\<rparr>] else qs)"

text \<open>The loop \<open>for (const key of this.getPropertyNames(instance))\<close>.\<close>

fun run_keys ::
  "string \<Rightarrow> ('v, 'w) object \<Rightarrow> string list \<Rightarrow> string list \<Rightarrow>
   ('v, 'w) SqlGenerator \<Rightarrow> ('v, 'w) result" where
  "run_keys label instance [] data s = (Inr data, s)"
| "run_keys label instance (key # rest) data s =
     (case map_of instance key of
        None \<Rightarrow> run_keys label instance rest data s
      | Some NotAFunction \<Rightarrow> run_keys label instance rest data s
      | Some (Function None target) \<Rightarrow> run_keys label instance rest data s
      | Some (Function (Some qs) target) \<Rightarrow>
          (case run_queries label key target (default_case qs) data s of
             (Inl e, s') \<Rightarrow> (Inl e, s')
           | (Inr data', s') \<Rightarrow> run_keys label instance rest data' s'))"

definition runTargets ::
  "('v, 'w) object \<Rightarrow> string \<Rightarrow> ('v, 'w) SqlGenerator \<Rightarrow> ('v, 'w) result" where
  "runTargets instance label s = run_keys label instance (getPropertyNames instance) [] s"

subsection \<open>\<open>process\<close>\<close>

definition provenance :: string where
  "provenance = ''-- NOTE: This file is auto generated by ./sql-generator''"

text \<open>
  The loop \<open>for (const key of Object.keys(instance))\<close> over the nested repositories,
  pushing each sub-object's blocks onto \<open>data\<close>.
\<close>

fun run_nested ::
  "string \<Rightarrow> (string \<times> ('v, 'w) object) list \<Rightarrow> string list \<Rightarrow>
   ('v, 'w) SqlGenerator \<Rightarrow> ('v, 'w) result" where
  "run_nested repo [] data s = (Inr data, s)"
| "run_nested repo ((key, subInstance) # rest) data s =
     (case runTargets subInstance (repo @ ''.'' @ key) s of
        (Inl e, s') \<Rightarrow> (Inl e, s')
      | (Inr d, s') \<Rightarrow> run_nested repo rest (data @ d) s')"

text \<open>
  A repository class is given by its \<open>name\<close>, the only thing \<open>process\<close> reads of it
  besides resolving it; \<open>AccessRepository.name\<close> is \<open>''AccessRepository''\<close>.
\<close>

definition process :: "string \<Rightarrow> ('v, 'w) SqlGenerator \<Rightarrow> ('v, 'w) completion" where
  "process Repository s =
     (case app s of
        None \<Rightarrow> (Inl NotInitialized, s)
      | Some a \<Rightarrow>
          (let instance = get a Repository in
           case runTargets (prototype instance) Repository s of
             (Inl e, s1) \<Rightarrow> (Inl e, s1)
           | (Inr d, s1) \<Rightarrow>
               if Repository = ''AccessRepository''
               then (case run_nested Repository (keys instance) ([provenance] @ d) s1 of
                       (Inl e, s2) \<Rightarrow> (Inl e, s2)
                     | (Inr data, s2) \<Rightarrow>
                         (Inr (), s2\<lparr>results := AList.update Repository data (results s2)\<rparr>))
               else (Inr (),
                     s1\<lparr>results := AList.update Repository ([provenance] @ d) (results s1)\<rparr>)))"

subsection \<open>\<open>setup\<close>, \<open>write\<close>, \<open>stats\<close>, \<open>close\<close>\<close>

text \<open>
  \<open>rm\<close> with \<open>force\<close> and \<open>recursive\<close> removes the directory, \<open>mkdir\<close>
  creates it empty, and the application is stored in \<open>app\<close> by the last statement
  only, after \<open>init()\<close> has returned. (The method is \<open>setup\<close> in the source.)
\<close>

definition setup_app :: "('v, 'w) environment \<Rightarrow> ('v, 'w) SqlGenerator \<Rightarrow> ('v, 'w) completion" where
  "setup_app env s =
     (case fails env Rm of
        Some e \<Rightarrow> (Inl (Raised e), s)
      | None \<Rightarrow>
          (let s1 = s\<lparr>files := None\<rparr> in
           case fails env Mkdir of
             Some e \<Rightarrow> (Inl (Raised e), s1)
           | None \<Rightarrow>
               (let s2 = s1\<lparr>files := Some Map.empty\<rparr> in
                case fails env Init of
                  Some e \<Rightarrow> (Inl (Raised e), s2)
                | None \<Rightarrow> (Inr (), s2\<lparr>app := Some (application env)\<rparr>))))"

text \<open>
  The loop of \<open>write\<close> over \<open>Object.entries(this.results)\<close>. A file is named by its
  name inside the target directory; \<open>writeFile\<close> fails when the directory is missing.
  The method \<open>write\<close> of the source is \<open>write_files\<close> here.
\<close>

fun write_entries ::
  "('v, 'w) environment \<Rightarrow> (string \<times> string list) list \<Rightarrow>
   ('v, 'w) SqlGenerator \<Rightarrow> ('v, 'w) completion" where
  "write_entries env [] s = (Inr (), s)"
| "write_entries env ((repoName, data) # rest) s =
     (let file = sql_file repoName in
      case fails env (WriteFile file) of
        Some e \<Rightarrow> (Inl (Raised e), s)
      | None \<Rightarrow>
          (case files s of
             None \<Rightarrow> (Inl (Raised ''ENOENT''), s)
           | Some dir \<Rightarrow>
               write_entries env rest
                 (s\<lparr>files := Some (dir(file \<mapsto>
                     join [CHR 0x0A, CHR 0x0A] data @ [CHR 0x0A]))\<rparr>)))"

definition write_files :: "('v, 'w) environment \<Rightarrow> ('v, 'w) SqlGenerator \<Rightarrow> ('v, 'w) completion" where
  "write_files env s = write_entries env (results s) s"

text \<open>
  \<open>stats\<close> prints \<open>Object.keys(this.results).length\<close> and
  \<open>Object.values(this.results).flat().length\<close>: the number of entries and the
  number of elements of all entries together.
\<close>

definition stats :: "('v, 'w) SqlGenerator \<Rightarrow> ('v, 'w) SqlGenerator" where
  "stats s =
     s\<lparr>console := console s @
        [Log (''Wrote '' @ digits (length (map fst (results s))) @ '' files''),
         Log (''Generated '' @ digits (length (concat (map snd (results s)))) @ '' queries'')]\<rparr>"

text \<open>
  \<open>if (this.app) { await this.app.close(); }\<close>. The trace records that
  \<open>close\<close> was entered and, when there is an application, that
  \<open>app.close()\<close> was called, whether or not that call fails.
\<close>

definition close :: "('v, 'w) environment \<Rightarrow> ('v, 'w) SqlGenerator \<Rightarrow> ('v, 'w) completion" where
  "close env s =
     (let s1 = s\<lparr>trace := trace s @ [Teardown]\<rparr> in
      case app s1 of
        None \<Rightarrow> (Inr (), s1)
      | Some a \<Rightarrow>
          (let s2 = s1\<lparr>trace := trace s1 @ [AppClose]\<rparr> in
           case fails env Close of
             Some e \<Rightarrow> (Inl (Raised e), s2)
           | None \<Rightarrow> (Inr (), s2)))"

subsection \<open>\<open>run\<close> and the top-level invocation\<close>

text \<open>The loop \<open>for (const Repository of repositories)\<close>.\<close>

fun process_all :: "string list \<Rightarrow> ('v, 'w) SqlGenerator \<Rightarrow> ('v, 'w) completion" where
  "process_all [] s = (Inr (), s)"
| "process_all (Repository # rest) s =
     (case process Repository s of
        (Inl e, s') \<Rightarrow> (Inl e, s')
      | (Inr _, s') \<Rightarrow> process_all rest s')"

text \<open>
  The \<open>try\<close> block of \<open>run\<close>. The target list is an argument, so that a scenario
  with another list can be stated; the program runs it on \<open>repositories\<close>.
\<close>

definition try_block ::
  "string list \<Rightarrow> ('v, 'w) environment \<Rightarrow> ('v, 'w) SqlGenerator \<Rightarrow> ('v, 'w) completion" where
  "try_block repos env s =
     (case setup_app env s of
        (Inl e, s1) \<Rightarrow> (Inl e, s1)
      | (Inr _, s1) \<Rightarrow>
          (case process_all repos s1 of
             (Inl e, s2) \<Rightarrow> (Inl e, s2)
           | (Inr _, s2) \<Rightarrow>
               (case write_files env s2 of
                  (Inl e, s3) \<Rightarrow> (Inl e, s3)
                | (Inr _, s3) \<Rightarrow> (Inr (), stats s3))))"

text \<open>
  \<open>try { ... } finally { await this.close(); }\<close>: \<open>close\<close> runs after the block
  however it ended, and an error of \<open>close\<close> replaces the block's.
\<close>

definition run ::
  "string list \<Rightarrow> ('v, 'w) environment \<Rightarrow> ('v, 'w) SqlGenerator \<Rightarrow> ('v, 'w) completion" where
  "run repos env s =
     (case try_block repos env s of
        (r, s1) \<Rightarrow>
          (case close env s1 of
             (Inl e, s2) \<Rightarrow> (Inl e, s2)
           | (Inr _, s2) \<Rightarrow> (r, s2)))"

text \<open>\<open>new SqlGenerator({ targetDir: './src/infra/sql' })\<close>, in a given directory and database.\<close>

definition new_SqlGenerator :: "(string \<rightharpoonup> string) option \<Rightarrow> 'w \<Rightarrow> ('v, 'w) SqlGenerator" where
  "new_SqlGenerator dir w =
     \<lparr>app = None, sqlLogger = \<lparr>queries = []\<rparr>, results = [], console = [],
      files = dir, world = w, trace = []\<rparr>"

fun show_error :: "error \<Rightarrow> string" where
  "show_error NotInitialized = ''Error: Not initialized''"
| "show_error TypeError = ''TypeError''"
| "show_error (Raised e) = e"

text \<open>
  The top-level invocation: \<open>.then\<close> prints \<open>Done\<close> and exits with 0,
  \<open>.catch\<close> prints the error and \<open>Something went wrong\<close> and exits with 1. The
  second component is the exit status.
\<close>

definition main ::
  "string list \<Rightarrow> ('v, 'w) environment \<Rightarrow> (string \<rightharpoonup> string) option \<Rightarrow> 'w \<Rightarrow>
   ('v, 'w) SqlGenerator \<times> nat" where
  "main repos env dir w =
     (case run repos env (new_SqlGenerator dir w) of
        (Inr _, s) \<Rightarrow> (s\<lparr>console := console s @ [Log ''Done'']\<rparr>, 0)
      | (Inl e, s) \<Rightarrow>
          (s\<lparr>console := console s @ [Err (show_error e), Log ''Something went wrong'']\<rparr>, 1))"

subsection \<open>Notions the properties are stated with\<close>

text \<open>The events of a trace that are no call of a method.\<close>

fun is_call :: "'v event \<Rightarrow> bool" where
  "is_call (Invoke label key ps) = True"
| "is_call Teardown = False"
| "is_call AppClose = False"

definition teardowns :: "'v event list \<Rightarrow> 'v event list" where
  "teardowns tr = filter (\<lambda>e. \<not> is_call e) tr"

text \<open>
  What the loops over methods and cases never touch: the application, the results and
  the files; and they add nothing but calls to the trace.
\<close>

definition untouched :: "('v, 'w) SqlGenerator \<Rightarrow> ('v, 'w) SqlGenerator \<Rightarrow> bool" where
  "untouched s s' =
     (app s' = app s \<and> results s' = results s \<and> files s' = files s \<and>
      teardowns (trace s') = teardowns (trace s))"

text \<open>
  A block of \<open>instance\<close> under \<open>label\<close>: the header \<open>-- label.key\<close> for an
  annotated method \<open>key\<close> of the instance, with the name of one of its cases in
  parentheses when that name is not empty, followed by at least one statement, one per
  line.
\<close>

definition case_suffix :: "string option \<Rightarrow> string" where
  "case_suffix nm = (case nm of None \<Rightarrow> [] | Some n \<Rightarrow> if n = [] then [] else '' ('' @ n @ '')'')"

definition labelled :: "string \<Rightarrow> ('v, 'w) object \<Rightarrow> string \<Rightarrow> bool" where
  "labelled label instance b =
     (\<exists>key md target q stmts.
        map_of instance key = Some (Function (Some md) target) \<and>
        q \<in> set (default_case md) \<and> stmts \<noteq> [] \<and>
        b = join [CHR 0x0A] ((''-- '' @ label @ ''.'' @ key @ case_suffix (name q)) # stmts))"




text \<open>
  The same program with every rejection turned into a resolution: the method issues the
  same statements and leaves the same database, but its promise resolves.
\<close>

definition calm :: "('v, 'w) target_method \<Rightarrow> ('v, 'w) target_method" where
  "calm target ps w =
     (case target ps w of
        ((stmts, Rejected e), w') \<Rightarrow> ((stmts, Resolved), w')
      | called \<Rightarrow> called)"

fun calm_property :: "('v, 'w) property \<Rightarrow> ('v, 'w) property" where
  "calm_property NotAFunction = NotAFunction"
| "calm_property (Function md target) = Function md (calm target)"

definition calm_object :: "('v, 'w) object \<Rightarrow> ('v, 'w) object" where
  "calm_object instance = map (\<lambda>(key, p). (key, calm_property p)) instance"

definition calm_instance :: "('v, 'w) repository_instance \<Rightarrow> ('v, 'w) repository_instance" where
  "calm_instance i =
     \<lparr>prototype = calm_object (prototype i),
      keys = map (\<lambda>(key, sub). (key, calm_object sub)) (keys i)\<rparr>"

definition calm_app :: "('v, 'w) INestApplication \<Rightarrow> ('v, 'w) INestApplication" where
  "calm_app a = \<lparr>get = (\<lambda>Repository. calm_instance (get a Repository))\<rparr>"

definition calm_env :: "('v, 'w) environment \<Rightarrow> ('v, 'w) environment" where
  "calm_env env = \<lparr>fails = fails env, application = calm_app (application env)\<rparr>"

fun is_Err :: "line \<Rightarrow> bool" where
  "is_Err (Err m) = True"
| "is_Err (Log m) = False"
| "is_Err (Warn m) = False"

text \<open>A state without the error lines of its console, holding the calm application.\<close>

definition hush :: "('v, 'w) SqlGenerator \<Rightarrow> ('v, 'w) SqlGenerator" where
  "hush s =
     s\<lparr>console := filter (\<lambda>l. \<not> is_Err l) (console s), app := map_option calm_app (app s)\<rparr>"

text \<open>The directory after \<open>writeFile\<close> has stored one entry of the result record.\<close>

definition written :: "(string \<rightharpoonup> string) \<Rightarrow> string \<times> string list \<Rightarrow> (string \<rightharpoonup> string)" where
  "written dir entry =
     dir(sql_file (fst entry) \<mapsto> join [CHR 0x0A, CHR 0x0A] (snd entry) @ [CHR 0x0A])"

text \<open>
  The blocks that a run captures, in capture order, as the specification describes the
  walk (its section 4.2), for comparison with what the code stores and writes. These
  functions have no state but the database, no console and no errors.

  One case: invoke the method with the arguments of the case and read what was recorded;
  nothing recorded gives no block, otherwise the block is the header line
  \<open>-- label.method\<close>, with the case name in parentheses when there is one, followed by
  each statement.
\<close>

fun case_blocks ::
  "string \<Rightarrow> string \<Rightarrow> ('v, 'w) target_method \<Rightarrow> 'v GenerateSqlQueries list \<Rightarrow> 'w \<Rightarrow>
   string list \<times> 'w" where
  "case_blocks label key target [] w = ([], w)"
| "case_blocks label key target (q # qs) w =
     (let called = target (params q) w;
          stmts = fst (fst called);
          later = case_blocks label key target qs (snd called)
      in ((if stmts = [] then []
           else [join [CHR 0x0A] ((''-- '' @ label @ ''.'' @ key @ case_suffix (name q)) # stmts)]) @
          fst later,
          snd later))"

text \<open>An empty case list stands for a single case with no arguments.\<close>

definition cases_to_run :: "'v GenerateSqlQueries list \<Rightarrow> 'v GenerateSqlQueries list" where
  "cases_to_run md = (if md = [] then [\<lparr>name = None, params = []\<rparr>] else md)"

text \<open>
  One object: its method names in declaration order; a name without capture metadata is
  skipped, the others contribute the blocks of their cases in order.
\<close>

fun object_blocks ::
  "string \<Rightarrow> ('v, 'w) object \<Rightarrow> string list \<Rightarrow> 'w \<Rightarrow> string list \<times> 'w" where
  "object_blocks label obj [] w = ([], w)"
| "object_blocks label obj (key # ks) w =
     (case map_of obj key of
        Some (Function (Some md) target) \<Rightarrow>
          (let here = case_blocks label key target (cases_to_run md) w;
               later = object_blocks label obj ks (snd here)
           in (fst here @ fst later, snd later))
      | _ \<Rightarrow> object_blocks label obj ks w)"

text \<open>The nested objects of the composite repository, each under \<open>Repository.property\<close>.\<close>

fun nested_blocks ::
  "string \<Rightarrow> (string \<times> ('v, 'w) object) list \<Rightarrow> 'w \<Rightarrow> string list \<times> 'w" where
  "nested_blocks repo [] w = ([], w)"
| "nested_blocks repo ((key, sub) # subs) w =
     (let here = object_blocks (repo @ ''.'' @ key) sub (map fst sub) w;
          later = nested_blocks repo subs (snd here)
      in (fst here @ fst later, snd later))"

text \<open>
  One repository: the blocks of its own methods and, for the composite repository, the
  blocks of its nested objects after them.
\<close>

definition repository_blocks ::
  "string \<Rightarrow> ('v, 'w) repository_instance \<Rightarrow> 'w \<Rightarrow> string list \<times> 'w" where
  "repository_blocks Repository i w =
     (let own = object_blocks Repository (prototype i) (map fst (prototype i)) w
      in if Repository = ''AccessRepository''
         then (let inner = nested_blocks Repository (keys i) (snd own)
               in (fst own @ fst inner, snd inner))
         else own)"

text \<open>The target list in order: each repository with the blocks it produced.\<close>

fun captured ::
  "string list \<Rightarrow> ('v, 'w) INestApplication \<Rightarrow> 'w \<Rightarrow> (string \<times> string list) list" where
  "captured [] a w = []"
| "captured (Repository # rest) a w =
     (let here = repository_blocks Repository (get a Repository) w
      in (Repository, fst here) # captured rest a (snd here))"

subsection \<open>Scenarios\<close>

text \<open>Concrete repositories, with strings as argument values and a database without state.\<close>

definition constructor :: "(string, unit) property" where
  "constructor = Function None (\<lambda>ps w. (([], Resolved), w))"

definition findAll :: "(string, unit) target_method" where
  "findAll ps w = (([''SELECT * FROM a''], Resolved), w)"

definition no_failure :: "step \<Rightarrow> string option" where
  "no_failure st = None"

text \<open>
  The end-to-end scenario of the specification: the target list is \<open>RepoA\<close>, whose
  one method \<open>findAll\<close> has empty capture metadata and issues \<open>SELECT * FROM a\<close>.
\<close>

definition RepoA :: "(string, unit) repository_instance" where
  "RepoA =
     \<lparr>prototype = [(''constructor'', constructor), (''findAll'', Function (Some []) findAll)],
      keys = []\<rparr>"

definition scenario_env :: "(string, unit) environment" where
  "scenario_env = \<lparr>fails = no_failure, application = \<lparr>get = (\<lambda>Repository. RepoA)\<rparr>\<rparr>"

definition scenario_run :: "(string, unit) SqlGenerator \<times> nat" where
  "scenario_run = main [''RepoA''] scenario_env None ()"

text \<open>Repositories none of whose methods is annotated, under the fixed target list.\<close>

definition idle_instance :: "(string, unit) repository_instance" where
  "idle_instance = \<lparr>prototype = [(''constructor'', constructor)], keys = []\<rparr>"

definition idle_env :: "(string, unit) environment" where
  "idle_env = \<lparr>fails = no_failure, application = \<lparr>get = (\<lambda>Repository. idle_instance)\<rparr>\<rparr>"

definition idle_run :: "(string, unit) SqlGenerator \<times> nat" where
  "idle_run = main repositories idle_env None ()"

text \<open>
  A repository whose first method issues a statement and then rejects, whose second
  rejects at once, and whose third is \<open>findAll\<close>; and one whose first method throws
  before it returns a promise.
\<close>

definition lookup :: "(string, unit) target_method" where
  "lookup ps w = (([''SELECT * FROM b WHERE id = $1''], Rejected ''Error: no row''), w)"

definition broken :: "(string, unit) target_method" where
  "broken ps w = (([], Rejected ''Error: bad argument''), w)"

definition hasty :: "(string, unit) target_method" where
  "hasty ps w = (([], Thrown ''TypeError: ids is undefined''), w)"

definition RepoB :: "(string, unit) repository_instance" where
  "RepoB =
     \<lparr>prototype =
        [(''constructor'', constructor),
         (''lookup'', Function (Some [\<lparr>name = Some ''by id'', params = [''id-1'']\<rparr>]) lookup),
         (''broken'', Function (Some []) broken),
         (''findAll'', Function (Some []) findAll)],
      keys = []\<rparr>"

definition rejecting_env :: "(string, unit) environment" where
  "rejecting_env = \<lparr>fails = no_failure, application = \<lparr>get = (\<lambda>Repository. RepoB)\<rparr>\<rparr>"

definition RepoC :: "(string, unit) repository_instance" where
  "RepoC =
     \<lparr>prototype =
        [(''constructor'', constructor),
         (''hasty'', Function (Some []) hasty),
         (''findAll'', Function (Some []) findAll)],
      keys = []\<rparr>"

definition throwing_env :: "(string, unit) environment" where
  "throwing_env = \<lparr>fails = no_failure, application = \<lparr>get = (\<lambda>Repository. RepoC)\<rparr>\<rparr>"

definition throwing_run :: "(string, unit) SqlGenerator \<times> nat" where
  "throwing_run = main [''RepoC''] throwing_env None ()"

text \<open>
  A composite repository: one method of its own and one nested object \<open>album\<close> with
  a method that has a named case.
\<close>

definition checkOwnerAccess :: "(string, unit) target_method" where
  "checkOwnerAccess ps w = (([''SELECT id FROM albums WHERE owner = $1''], Resolved), w)"

definition Access :: "(string, unit) repository_instance" where
  "Access =
     \<lparr>prototype = [(''constructor'', constructor), (''findAll'', Function (Some []) findAll)],
      keys =
        [(''album'',
          [(''constructor'', constructor),
           (''checkOwnerAccess'',
            Function (Some [\<lparr>name = Some ''owner'', params = [''user-1'']\<rparr>]) checkOwnerAccess)])]\<rparr>"

definition access_state :: "(string, unit) SqlGenerator" where
  "access_state = (new_SqlGenerator (Some Map.empty) ())\<lparr>app := Some \<lparr>get = (\<lambda>Repository. Access)\<rparr>\<rparr>"






text \<open>The state in which processing starts in that environment.\<close>

definition idle_start :: "(string, unit) SqlGenerator" where
  "idle_start = (new_SqlGenerator (Some Map.empty) ())\<lparr>app := Some (application idle_env)\<rparr>"

text \<open>The state of that run when the files have been written.\<close>

definition idle_results :: "(string \<times> string list) list" where
  "idle_results = map (\<lambda>Repository. (Repository, [provenance])) repositories"

definition idle_written :: "(string, unit) SqlGenerator" where
  "idle_written =
     idle_start\<lparr>results := idle_results, files := Some (foldl written Map.empty idle_results)\<rparr>"

text \<open>
  A run over two repositories that produce two blocks each: the composite repository
  above, with a block of its own and one of its nested object, and \<open>RepoB\<close>.
\<close>

definition mixed_env :: "(string, unit) environment" where
  "mixed_env =
     \<lparr>fails = no_failure,
      application =
        \<lparr>get = (\<lambda>Repository. if Repository = ''AccessRepository'' then Access else RepoB)\<rparr>\<rparr>"

section \<open>Properties\<close>

subsection \<open>File names\<close>

lemma toLowerCase_id: "\<not> is_upper c \<Longrightarrow> toLowerCase c = c"
  by (auto simp: toLowerCase_def is_upper_def split: option.splits if_splits)

lemma toLowerCase_dot: "toLowerCase CHR ''.'' = CHR ''.''"
  by (simp add: toLowerCase_def)

lemma map_toLowerCase_insert_separators:
  "map toLowerCase (insert_separators s) = replaceAll_upper s"
proof (induction s)
  case Nil
  show ?case by simp
next
  case (Cons c cs)
  show ?case
    using Cons.IH by (simp add: toLowerCase_dot toLowerCase_id)
qed

lemma is_lower_plain: "is_lower c \<Longrightarrow> \<not> is_upper c \<and> c \<noteq> CHR ''.''"
  by (auto simp: is_lower_def is_upper_def)

lemma length_replace_dot:
  "CHR ''.'' \<in> set s \<Longrightarrow> Suc (length (replace_dot s)) = length s"
  by (induction s) auto

lemma dot_in_replaceAll_upper:
  "\<exists>u\<in>set s. is_upper u \<Longrightarrow> CHR ''.'' \<in> set (replaceAll_upper s)"
  by (induction s) auto

lemma spec_filename_upper:
  "is_upper c \<Longrightarrow> spec_filename (c # cs) = toLowerCase c # replaceAll_upper cs"
  using map_toLowerCase_insert_separators [of cs]
  by (simp add: spec_filename_def toLowerCase_dot)

lemma filename_upper:
  "is_upper c \<Longrightarrow> filename (c # cs) = toLowerCase c # replaceAll_upper cs"
  by (simp add: filename_def)

lemma spec_filename_lower:
  "is_lower c \<Longrightarrow> spec_filename (c # cs) = c # replaceAll_upper cs"
  using is_lower_plain [of c]
  by (simp add: spec_filename_def map_toLowerCase_insert_separators toLowerCase_id)

lemma filename_lower:
  "is_lower c \<Longrightarrow> filename (c # cs) = c # replace_dot (replaceAll_upper cs)"
  using is_lower_plain [of c] by (simp add: filename_def)

text \<open>
  Claim C2. The name of the output file is a function of the repository identifier alone.
  For an identifier that starts with a capital letter it is the result of the rule: insert
  a separator before each uppercase letter, lowercase the whole string, strip the leading
  separator, append \<open>.sql\<close>. In particular \<open>AssetRepository\<close> gives
  \<open>asset.repository.sql\<close> and \<open>AccessRepository\<close> gives
  \<open>access.repository.sql\<close>.
\<close>

theorem filename_derivation:
  "(is_upper c \<longrightarrow>
      sql_file (c # cs) =
        strip_leading_separator (map toLowerCase (insert_separators (c # cs))) @ ''.sql'') \<and>
   sql_file ''AssetRepository'' = ''asset.repository.sql'' \<and>
   sql_file ''AccessRepository'' = ''access.repository.sql''"
proof (intro conjI impI)
  assume "is_upper c"
  then show "sql_file (c # cs) =
      strip_leading_separator (map toLowerCase (insert_separators (c # cs))) @ ''.sql''"
    using spec_filename_upper [of c cs] filename_upper [of c cs]
    by (simp add: sql_file_def spec_filename_def)
next
  show "sql_file ''AssetRepository'' = ''asset.repository.sql''"
    by (simp add: sql_file_def filename_def is_upper_def toLowerCase_def)
next
  show "sql_file ''AccessRepository'' = ''access.repository.sql''"
    by (simp add: sql_file_def filename_def is_upper_def toLowerCase_def)
qed

theorem filename_derivation_witness:
  "is_upper CHR ''U'' \<and>
   sql_file ''UserTokenRepository'' =
     strip_leading_separator (map toLowerCase (insert_separators ''UserTokenRepository'')) @ ''.sql'' \<and>
   sql_file ''UserTokenRepository'' = ''user.token.repository.sql''"
  using filename_derivation [of "CHR ''U''" "''serTokenRepository''"]
  by (simp add: sql_file_def filename_def is_upper_def toLowerCase_def)

text \<open>
  Claim C9. The transformation of the code (a dot and the lowercased letter for each
  uppercase letter, then the first dot anywhere removed) equals the rule of the
  specification (only a leading separator stripped) on every identifier whose first
  character is uppercase. On an identifier that starts with a lowercase letter and has an
  uppercase letter further on the two differ: the specification keeps the string, the
  code removes a separator in its interior.
\<close>

theorem filename_refines_spec_rule:
  "(is_upper c \<longrightarrow> filename (c # cs) = spec_filename (c # cs)) \<and>
   (is_lower c \<and> (\<exists>u\<in>set cs. is_upper u) \<longrightarrow>
      spec_filename (c # cs) = c # replaceAll_upper cs \<and>
      filename (c # cs) = c # replace_dot (replaceAll_upper cs) \<and>
      filename (c # cs) \<noteq> spec_filename (c # cs))"
proof (intro conjI impI)
  assume "is_upper c"
  then show "filename (c # cs) = spec_filename (c # cs)"
    by (simp add: spec_filename_upper filename_upper)
next
  assume h: "is_lower c \<and> (\<exists>u\<in>set cs. is_upper u)"
  then show "spec_filename (c # cs) = c # replaceAll_upper cs"
    by (simp add: spec_filename_lower)
  from h show "filename (c # cs) = c # replace_dot (replaceAll_upper cs)"
    by (simp add: filename_lower)
  from h have "CHR ''.'' \<in> set (replaceAll_upper cs)"
    by (simp add: dot_in_replaceAll_upper)
  then have "length (replace_dot (replaceAll_upper cs)) \<noteq> length (replaceAll_upper cs)"
    using length_replace_dot [of "replaceAll_upper cs"] by simp
  then have "replace_dot (replaceAll_upper cs) \<noteq> replaceAll_upper cs"
    by auto
  with h show "filename (c # cs) \<noteq> spec_filename (c # cs)"
    by (simp add: spec_filename_lower filename_lower)
qed

theorem filename_refines_spec_rule_witness:
  "is_upper CHR ''A'' \<and> filename ''AssetRepository'' = spec_filename ''AssetRepository'' \<and>
   filename ''AssetRepository'' = ''asset.repository'' \<and>
   is_lower CHR ''a'' \<and> (\<exists>u\<in>set ''ssetRepo''. is_upper u) \<and>
   spec_filename ''assetRepo'' = ''asset.repo'' \<and> filename ''assetRepo'' = ''assetrepo'' \<and>
   filename ''assetRepo'' \<noteq> spec_filename ''assetRepo''"
  using filename_refines_spec_rule [of "CHR ''A''" "''ssetRepository''"]
    filename_refines_spec_rule [of "CHR ''a''" "''ssetRepo''"]
  by (simp add: filename_def spec_filename_def is_upper_def is_lower_def toLowerCase_def)

subsection \<open>What the invocation loops leave alone\<close>

lemma untouched_refl: "untouched s s"
  by (simp add: untouched_def)

lemma untouched_trans: "untouched s s1 \<Longrightarrow> untouched s1 s2 \<Longrightarrow> untouched s s2"
  by (simp add: untouched_def)

lemma untouched_console: "untouched s (s'\<lparr>console := c\<rparr>) = untouched s s'"
  by (simp add: untouched_def)

lemma invoke_case_untouched:
  "invoke_case label key target q s = (r, s') \<Longrightarrow> untouched s s'"
  by (auto simp: invoke_case_def untouched_def teardowns_def Let_def clear_def
      split: outcome.splits)

lemma run_queries_untouched:
  "run_queries label key target qs data s = (r, s') \<Longrightarrow> untouched s s'"
proof (induction qs arbitrary: data s)
  case Nil
  then show ?case by (simp add: untouched_refl)
next
  case (Cons q qs)
  obtain r1 s1 where ic: "invoke_case label key target q s = (r1, s1)"
    by fastforce
  have u1: "untouched s s1"
    using ic by (rule invoke_case_untouched)
  show ?case
  proof (cases r1)
    case (Inl e)
    with Cons.prems ic u1 show ?thesis by simp
  next
    case (Inr u)
    with Cons.prems ic have "\<exists>d c. run_queries label key target qs d (s1\<lparr>console := c\<rparr>) = (r, s')
        \<or> run_queries label key target qs d s1 = (r, s')"
      by (auto split: if_splits)
    then obtain s2 where "untouched s2 s'" and "untouched s1 s2"
      using Cons.IH by (metis untouched_console untouched_refl)
    with u1 show ?thesis
      by (metis untouched_trans)
  qed
qed

text \<open>The four ways in which \<open>run_keys\<close> treats a property name.\<close>

lemma run_keys_skip:
  "\<forall>md target. map_of instance key \<noteq> Some (Function (Some md) target) \<Longrightarrow>
   run_keys label instance (key # ks) data s = run_keys label instance ks data s"
  by (auto split: option.splits property.splits)

lemma run_keys_annotated:
  "map_of instance key = Some (Function (Some md) target) \<Longrightarrow>
   run_keys label instance (key # ks) data s =
     (case run_queries label key target (default_case md) data s of
        (Inl e, s') \<Rightarrow> (Inl e, s')
      | (Inr data', s') \<Rightarrow> run_keys label instance ks data' s')"
  by simp

lemma run_keys_untouched:
  "run_keys label instance ks data s = (r, s') \<Longrightarrow> untouched s s'"
proof (induction ks arbitrary: data s)
  case Nil
  then show ?case by (simp add: untouched_refl)
next
  case (Cons key ks)
  show ?case
  proof (cases "\<exists>md target. map_of instance key = Some (Function (Some md) target)")
    case False
    then have "run_keys label instance (key # ks) data s = run_keys label instance ks data s"
      by (intro run_keys_skip) simp
    with Cons show ?thesis by simp
  next
    case True
    then obtain md target where ann: "map_of instance key = Some (Function (Some md) target)"
      by blast
    obtain r1 s1 where rq: "run_queries label key target (default_case md) data s = (r1, s1)"
      by fastforce
    have u1: "untouched s s1"
      using rq by (rule run_queries_untouched)
    show ?thesis
    proof (cases r1)
      case (Inl e)
      with Cons.prems [unfolded run_keys_annotated [OF ann]] rq u1 show ?thesis
        by simp
    next
      case (Inr d)
      with Cons.prems [unfolded run_keys_annotated [OF ann]] rq
      have "run_keys label instance ks d s1 = (r, s')"
        by simp
      then have "untouched s1 s'"
        by (rule Cons.IH)
      with u1 show ?thesis
        by (rule untouched_trans)
    qed
  qed
qed

lemma runTargets_untouched:
  "runTargets instance label s = (r, s') \<Longrightarrow> untouched s s'"
  unfolding runTargets_def by (rule run_keys_untouched)

lemma run_nested_untouched:
  "run_nested repo subs data s = (r, s') \<Longrightarrow> untouched s s'"
proof (induction subs arbitrary: data s)
  case Nil
  then show ?case by (simp add: untouched_refl)
next
  case (Cons sub subs)
  obtain key subInstance where sub: "sub = (key, subInstance)"
    by (cases sub)
  obtain r1 s1 where rt: "runTargets subInstance (repo @ ''.'' @ key) s = (r1, s1)"
    by fastforce
  have u1: "untouched s s1"
    using rt by (rule runTargets_untouched)
  show ?case
  proof (cases r1)
    case (Inl e)
    with Cons.prems sub rt u1 show ?thesis by simp
  next
    case (Inr d)
    with Cons.prems sub rt have "run_nested repo subs (data @ d) s1 = (r, s')"
      by simp
    then have "untouched s1 s'"
      by (rule Cons.IH)
    with u1 show ?thesis
      by (rule untouched_trans)
  qed
qed

subsection \<open>The blocks that the loops push\<close>

lemma queryLabel_suffix: "queryLabel label key nm = label @ ''.'' @ key @ case_suffix nm"
  by (simp add: queryLabel_def case_suffix_def split: option.splits)

lemma invoke_case_queries:
  "invoke_case label key target q s = (r, s') \<Longrightarrow>
   queries (sqlLogger s') = fst (fst (target (params q) (world s)))"
proof -
  have fold: "queries (foldl logQuery l stmts) = queries l @ stmts" for l stmts
    by (induction stmts arbitrary: l) (simp_all add: logQuery_def)
  assume "invoke_case label key target q s = (r, s')"
  then show ?thesis
    by (auto simp: invoke_case_def Let_def clear_def fold split: outcome.splits)
qed

lemma run_queries_blocks:
  "run_queries label key target qs data s = (Inr d, s') \<Longrightarrow>
   \<exists>new. d = data @ new \<and>
     (\<forall>b\<in>set new. \<exists>q\<in>set qs. \<exists>stmts. stmts \<noteq> [] \<and>
        b = block (queryLabel label key (name q)) stmts)"
proof (induction qs arbitrary: data s)
  case Nil
  then show ?case by simp
next
  case (Cons q qs)
  obtain r1 s1 where ic: "invoke_case label key target q s = (r1, s1)"
    by fastforce
  from Cons.prems ic obtain u where r1: "r1 = Inr u"
    by (cases r1) auto
  show ?case
  proof (cases "length (queries (sqlLogger s1)) = 0")
    case True
    with Cons.prems ic r1 obtain s2 where "run_queries label key target qs data s2 = (Inr d, s')"
      by auto
    from Cons.IH [OF this] show ?thesis
      by auto
  next
    case False
    let ?b = "block (queryLabel label key (name q)) (queries (sqlLogger s1))"
    from False Cons.prems ic r1 have "run_queries label key target qs (data @ [?b]) s1 = (Inr d, s')"
      by auto
    from Cons.IH [OF this] obtain new where new: "d = (data @ [?b]) @ new"
      and all: "\<forall>b\<in>set new. \<exists>q\<in>set qs. \<exists>stmts. stmts \<noteq> [] \<and>
        b = block (queryLabel label key (name q)) stmts"
      by blast
    from False have "queries (sqlLogger s1) \<noteq> []"
      by simp
    with new all show ?thesis
      by (intro exI [of _ "?b # new"]) auto
  qed
qed

lemma run_keys_blocks:
  "run_keys label instance ks data s = (Inr d, s') \<Longrightarrow>
   \<exists>new. d = data @ new \<and> (\<forall>b\<in>set new. labelled label instance b)"
proof (induction ks arbitrary: data s)
  case Nil
  then show ?case by simp
next
  case (Cons key ks)
  show ?case
  proof (cases "\<exists>md target. map_of instance key = Some (Function (Some md) target)")
    case False
    then have "run_keys label instance (key # ks) data s = run_keys label instance ks data s"
      by (intro run_keys_skip) simp
    with Cons show ?thesis by simp
  next
    case True
    then obtain md target where ann: "map_of instance key = Some (Function (Some md) target)"
      by blast
    obtain r1 s1 where rq: "run_queries label key target (default_case md) data s = (r1, s1)"
      by fastforce
    with Cons.prems [unfolded run_keys_annotated [OF ann]] obtain d1 where r1: "r1 = Inr d1"
      by (cases r1) auto
    from run_queries_blocks [OF rq [unfolded r1]] obtain new1 where d1: "d1 = data @ new1"
      and all1: "\<forall>b\<in>set new1. \<exists>q\<in>set (default_case md). \<exists>stmts. stmts \<noteq> [] \<and>
        b = block (queryLabel label key (name q)) stmts"
      by blast
    have lab1: "\<forall>b\<in>set new1. labelled label instance b"
    proof
      fix b assume "b \<in> set new1"
      with all1 obtain q stmts where "q \<in> set (default_case md)" "stmts \<noteq> []"
        "b = block (queryLabel label key (name q)) stmts"
        by blast
      with ann show "labelled label instance b"
        unfolding labelled_def block_def queryLabel_suffix by auto
    qed
    from Cons.prems [unfolded run_keys_annotated [OF ann]] rq r1
    have "run_keys label instance ks d1 s1 = (Inr d, s')"
      by simp
    from Cons.IH [OF this] obtain new2 where "d = d1 @ new2"
      and "\<forall>b\<in>set new2. labelled label instance b"
      by blast
    with d1 lab1 show ?thesis
      by (intro exI [of _ "new1 @ new2"]) auto
  qed
qed

lemma runTargets_blocks:
  "runTargets instance label s = (Inr d, s') \<Longrightarrow> \<forall>b\<in>set d. labelled label instance b"
  unfolding runTargets_def by (drule run_keys_blocks) simp

lemma run_nested_blocks:
  "run_nested repo subs data s = (Inr d, s') \<Longrightarrow>
   \<exists>nested. d = data @ concat nested \<and>
     list_all2 (\<lambda>sub bs. \<forall>b\<in>set bs. labelled (repo @ ''.'' @ fst sub) (snd sub) b) subs nested"
proof (induction subs arbitrary: data s)
  case Nil
  then show ?case by simp
next
  case (Cons sub subs)
  obtain key subInstance where sub: "sub = (key, subInstance)"
    by (cases sub)
  obtain r1 s1 where rt: "runTargets subInstance (repo @ ''.'' @ key) s = (r1, s1)"
    by fastforce
  with Cons.prems sub obtain d1 where r1: "r1 = Inr d1"
    by (cases r1) auto
  have lab1: "\<forall>b\<in>set d1. labelled (repo @ ''.'' @ key) subInstance b"
    using rt r1 runTargets_blocks by blast
  from Cons.prems sub rt r1 have "run_nested repo subs (data @ d1) s1 = (Inr d, s')"
    by simp
  from Cons.IH [OF this] obtain nested where "d = (data @ d1) @ concat nested"
    and "list_all2 (\<lambda>sub bs. \<forall>b\<in>set bs. labelled (repo @ ''.'' @ fst sub) (snd sub) b) subs nested"
    by blast
  with lab1 sub show ?case
    by (intro exI [of _ "d1 # nested"]) simp
qed

subsection \<open>\<open>process\<close> and the result record\<close>

lemma process_completes:
  assumes "process Repository s = (Inr u, s')"
  shows "\<exists>a top nested.
    app s = Some a \<and> app s' = app s \<and> files s' = files s \<and>
    results s' = AList.update Repository (provenance # top @ concat nested) (results s) \<and>
    (\<forall>b\<in>set top. labelled Repository (prototype (get a Repository)) b) \<and>
    (if Repository = ''AccessRepository''
     then list_all2 (\<lambda>sub bs. \<forall>b\<in>set bs. labelled (Repository @ ''.'' @ fst sub) (snd sub) b)
            (keys (get a Repository)) nested
     else nested = [])"
proof -
  from assms obtain a where a: "app s = Some a"
    by (cases "app s") (auto simp: process_def)
  let ?i = "get a Repository"
  obtain r1 s1 where rt: "runTargets (prototype ?i) Repository s = (r1, s1)"
    by fastforce
  with assms a obtain top where r1: "r1 = Inr top"
    by (cases r1) (auto simp: process_def)
  have u1: "untouched s s1"
    using rt by (rule runTargets_untouched)
  have lab: "\<forall>b\<in>set top. labelled Repository (prototype ?i) b"
    using rt r1 runTargets_blocks by blast
  show ?thesis
  proof (cases "Repository = ''AccessRepository''")
    case False
    with assms a rt r1 have "s' = s1\<lparr>results := AList.update Repository ([provenance] @ top) (results s1)\<rparr>"
      by (simp add: process_def)
    with u1 a lab False show ?thesis
      by (intro exI [of _ a] exI [of _ top] exI [of _ "[]"]) (simp add: untouched_def)
  next
    case True
    obtain r2 s2 where rn: "run_nested Repository (keys ?i) ([provenance] @ top) s1 = (r2, s2)"
      by fastforce
    with assms a rt r1 True obtain d where r2: "r2 = Inr d"
      by (cases r2) (auto simp: process_def)
    have u2: "untouched s1 s2"
      using rn by (rule run_nested_untouched)
    from run_nested_blocks [OF rn [unfolded r2]] obtain nested
      where d: "d = ([provenance] @ top) @ concat nested"
      and nl: "list_all2 (\<lambda>sub bs. \<forall>b\<in>set bs. labelled (Repository @ ''.'' @ fst sub) (snd sub) b)
            (keys ?i) nested"
      by blast
    from assms a rt r1 True rn r2 have "s' = s2\<lparr>results := AList.update Repository d (results s2)\<rparr>"
      by (simp add: process_def)
    with u1 u2 a lab True d nl show ?thesis
      by (intro exI [of _ a] exI [of _ top] exI [of _ nested]) (simp add: untouched_def)
  qed
qed

text \<open>Every entry of the result record starts with the provenance line.\<close>

lemma update_keeps_heads:
  "\<forall>(k, d)\<in>set al. d \<noteq> [] \<and> hd d = p \<Longrightarrow> v \<noteq> [] \<Longrightarrow> hd v = p \<Longrightarrow>
   \<forall>(k, d)\<in>set (AList.update key v al). d \<noteq> [] \<and> hd d = p"
  by (induction al) auto

lemma process_all_completes:
  "process_all repos s = (Inr u, s') \<Longrightarrow>
   distinct repos \<Longrightarrow> set repos \<inter> fst ` set (results s) = {} \<Longrightarrow>
   \<forall>(k, d)\<in>set (results s). d \<noteq> [] \<and> hd d = provenance \<Longrightarrow>
   map fst (results s') = map fst (results s) @ repos \<and>
   (\<forall>(k, d)\<in>set (results s'). d \<noteq> [] \<and> hd d = provenance) \<and>
   app s' = app s \<and> files s' = files s"
proof (induction repos arbitrary: s)
  case Nil
  then show ?case by simp
next
  case (Cons Repository repos)
  obtain r1 s1 where p: "process Repository s = (r1, s1)"
    by fastforce
  with Cons.prems(1) obtain u1 where r1: "r1 = Inr u1"
    by (cases r1) auto
  from process_completes [OF p [unfolded r1]] obtain blocks
    where frame: "app s1 = app s" "files s1 = files s"
    and res: "results s1 = AList.update Repository (provenance # blocks) (results s)"
    by blast
  from Cons.prems(3) have fresh: "Repository \<notin> fst ` set (results s)"
    by auto
  have keys1: "map fst (results s1) = map fst (results s) @ [Repository]"
    using fresh by (simp add: res update_keys)
  have heads1: "\<forall>(k, d)\<in>set (results s1). d \<noteq> [] \<and> hd d = provenance"
    unfolding res using Cons.prems(4) by (intro update_keeps_heads) simp_all
  from Cons.prems(1) p r1 have rest: "process_all repos s1 = (Inr u, s')"
    by simp
  have disj: "set repos \<inter> fst ` set (results s1) = {}"
  proof -
    have "fst ` set (results s1) = set (map fst (results s1))"
      by simp
    also have "\<dots> = fst ` set (results s) \<union> {Repository}"
      unfolding keys1 by simp
    finally show ?thesis
      using Cons.prems(2,3) by auto
  qed
  from Cons.prems(2) have "distinct repos"
    by simp
  from Cons.IH [OF rest this disj heads1] keys1 frame show ?case
    by simp
qed

subsection \<open>The result record after processing\<close>

lemma distinct_repositories: "distinct repositories"
  by (simp add: repositories_def)

text \<open>
  Claim C10. When the processing phase has completed, the result record has exactly one
  entry for each repository of the fixed target list, in the order of the list, and no
  entry is empty: its first element is the provenance line, whether or not the repository
  produced a block.
\<close>

theorem results_after_processing:
  assumes "process_all repositories s = (Inr (), s')" and "results s = []"
  shows "map fst (results s') = repositories \<and>
    (\<forall>(Repository, data)\<in>set (results s'). data \<noteq> [] \<and> hd data = provenance)"
  using process_all_completes [OF assms(1) distinct_repositories] assms(2)
  by simp

theorem results_after_processing_witness:
  "fst (process_all repositories idle_start) = Inr () \<and> results idle_start = [] \<and>
   map fst (results (snd (process_all repositories idle_start))) = repositories \<and>
   map snd (results (snd (process_all repositories idle_start))) = replicate 16 [provenance] \<and>
   map_of (results (snd (process_all repositories idle_start))) ''TagRepository'' =
     Some [provenance]"
proof -
  have ran: "process_all repositories idle_start =
      (Inr (), idle_start\<lparr>results := map (\<lambda>Repository. (Repository, [provenance])) repositories\<rparr>)"
    by (simp add: idle_start_def idle_env_def idle_instance_def repositories_def process_def
        runTargets_def getPropertyNames_def constructor_def new_SqlGenerator_def)
  have start: "results idle_start = []"
    by (simp add: idle_start_def new_SqlGenerator_def)
  have entry: "map_of (map (\<lambda>Repository. (Repository, [provenance])) repositories) ''TagRepository'' =
      Some [provenance]"
    by (simp add: repositories_def)
  have data: "map snd (map (\<lambda>Repository. (Repository, [provenance])) repositories) =
      replicate 16 [provenance]"
    by (simp add: repositories_def eval_nat_numeral)
  show ?thesis
    using results_after_processing [OF ran start] start entry data
    by (simp add: ran)
qed

subsection \<open>Labels of the composite repository\<close>

text \<open>
  Claim C7. The blocks of the access repository are, after the provenance line, the
  blocks of its own methods under the two-part label \<open>AccessRepository.method\<close>,
  followed for each of its nested objects, in order, by the blocks of that object under
  the three-part label \<open>AccessRepository.subObject.method\<close>. In both, a case
  name that is not empty follows in parentheses.
\<close>

theorem composite_labels:
  assumes "process ''AccessRepository'' s = (Inr (), s')" and "app s = Some a"
  shows "\<exists>top nested.
    map_of (results s') ''AccessRepository'' = Some (provenance # top @ concat nested) \<and>
    (\<forall>b\<in>set top. labelled ''AccessRepository'' (prototype (get a ''AccessRepository'')) b) \<and>
    list_all2
      (\<lambda>sub bs. \<forall>b\<in>set bs. labelled (''AccessRepository'' @ ''.'' @ fst sub) (snd sub) b)
      (keys (get a ''AccessRepository'')) nested"
proof -
  from process_completes [OF assms(1)] assms(2) obtain top nested
    where res: "results s' =
        AList.update ''AccessRepository'' (provenance # top @ concat nested) (results s)"
    and top: "\<forall>b\<in>set top. labelled ''AccessRepository'' (prototype (get a ''AccessRepository'')) b"
    and nested: "list_all2
      (\<lambda>sub bs. \<forall>b\<in>set bs. labelled (''AccessRepository'' @ ''.'' @ fst sub) (snd sub) b)
      (keys (get a ''AccessRepository'')) nested"
    by auto
  have "map_of (results s') ''AccessRepository'' = Some (provenance # top @ concat nested)"
    unfolding res by (simp add: update_conv')
  with top nested show ?thesis
    by blast
qed

theorem composite_labels_witness:
  "fst (process ''AccessRepository'' access_state) = Inr () \<and>
   app access_state = Some \<lparr>get = (\<lambda>Repository. Access)\<rparr> \<and>
   map_of (results (snd (process ''AccessRepository'' access_state))) ''AccessRepository'' =
     Some [provenance,
       ''-- AccessRepository.findAll'' @ [CHR 0x0A] @ ''SELECT * FROM a'',
       ''-- AccessRepository.album.checkOwnerAccess (owner)'' @ [CHR 0x0A] @
         ''SELECT id FROM albums WHERE owner = $1''] \<and>
   (\<exists>top nested.
      map_of (results (snd (process ''AccessRepository'' access_state))) ''AccessRepository'' =
        Some (provenance # top @ concat nested) \<and>
      (\<forall>b\<in>set top. labelled ''AccessRepository'' (prototype Access) b) \<and>
      list_all2
        (\<lambda>sub bs. \<forall>b\<in>set bs. labelled (''AccessRepository'' @ ''.'' @ fst sub) (snd sub) b)
        (keys Access) nested)"
proof -
  let ?data = "[provenance,
       ''-- AccessRepository.findAll'' @ [CHR 0x0A] @ ''SELECT * FROM a'',
       ''-- AccessRepository.album.checkOwnerAccess (owner)'' @ [CHR 0x0A] @
         ''SELECT id FROM albums WHERE owner = $1'']"
  have ran: "process ''AccessRepository'' access_state =
      (Inr (), access_state
         \<lparr>sqlLogger := \<lparr>queries = [''SELECT id FROM albums WHERE owner = $1'']\<rparr>,
          trace := [Invoke ''AccessRepository'' ''findAll'' [],
                    Invoke ''AccessRepository.album'' ''checkOwnerAccess'' [''user-1'']],
          results := [(''AccessRepository'', ?data)]\<rparr>)"
    by (simp add: access_state_def Access_def findAll_def checkOwnerAccess_def constructor_def
        process_def runTargets_def getPropertyNames_def new_SqlGenerator_def invoke_case_def
        default_case_def clear_def logQuery_def queryLabel_def block_def)
  have ctx: "app access_state = Some \<lparr>get = (\<lambda>Repository. Access)\<rparr>"
    by (simp add: access_state_def)
  show ?thesis
    using composite_labels [OF ran ctx] ctx
    by (simp add: ran)
qed

subsection \<open>The calls that are made\<close>














subsection \<open>The phases of a run\<close>

lemma setup_app_completes:
  "setup_app env s = (Inr u, s1) \<Longrightarrow>
   s1 = s\<lparr>files := Some Map.empty, app := Some (application env)\<rparr>"
  by (auto simp: setup_app_def Let_def split: option.splits)

lemma setup_app_fails:
  "setup_app env s = (Inl e, s1) \<Longrightarrow> app s1 = app s \<and> trace s1 = trace s"
  by (auto simp: setup_app_def Let_def split: option.splits)

lemma close_keeps:
  "close env s = (r, s') \<Longrightarrow>
   files s' = files s \<and> results s' = results s \<and> console s' = console s \<and> app s' = app s"
  by (auto simp: close_def Let_def split: option.splits)

lemma stats_keeps: "files (stats s) = files s \<and> results (stats s) = results s \<and> app (stats s) = app s"
  by (simp add: stats_def)

lemma run_completes:
  assumes "run repos env s = (Inr u, s')"
  shows "\<exists>s1 s2 s3. setup_app env s = (Inr (), s1) \<and> process_all repos s1 = (Inr (), s2) \<and>
    write_files env s2 = (Inr (), s3) \<and> close env (stats s3) = (Inr (), s')"
proof -
  obtain r0 s0 where body: "try_block repos env s = (r0, s0)"
    by fastforce
  obtain rc sc where fin: "close env s0 = (rc, sc)"
    by fastforce
  from assms body fin have rc: "rc = Inr ()" and r0: "r0 = Inr ()" and sc: "sc = s'"
    by (auto simp: run_def split: sum.splits)
  obtain ra s1 where a: "setup_app env s = (ra, s1)"
    by fastforce
  obtain rb s2 where b: "process_all repos s1 = (rb, s2)"
    by fastforce
  obtain rw s3 where c: "write_files env s2 = (rw, s3)"
    by fastforce
  from body r0 a b c have "ra = Inr ()" "rb = Inr ()" "rw = Inr ()" "s0 = stats s3"
    by (auto simp: try_block_def split: sum.splits)
  with a b c fin rc sc show ?thesis
    by simp
qed

subsection \<open>The files that \<open>write\<close> leaves\<close>

text \<open>The directory after the entries have been written, one after the other.\<close>

lemma write_entries_completes:
  "write_entries env es s = (Inr u, s') \<Longrightarrow> files s = Some dir \<Longrightarrow>
   files s' = Some (foldl written dir es) \<and>
   results s' = results s \<and> console s' = console s \<and> app s' = app s \<and> trace s' = trace s"
proof (induction es arbitrary: s dir)
  case Nil
  then show ?case by simp
next
  case (Cons entry es)
  obtain repoName data where entry: "entry = (repoName, data)"
    by (cases entry)
  from Cons.prems entry have ok: "fails env (WriteFile (sql_file repoName)) = None"
    by (auto simp: Let_def split: option.splits)
  with Cons.prems entry
  have rest: "write_entries env es (s\<lparr>files := Some (written dir entry)\<rparr>) = (Inr u, s')"
    by (simp add: Let_def written_def)
  have "files (s\<lparr>files := Some (written dir entry)\<rparr>) = Some (written dir entry)"
    by simp
  from Cons.IH [OF rest this] show ?case
    by simp
qed

lemma dom_written: "dom (foldl written dir es) = dom dir \<union> sql_file ` fst ` set es"
  by (induction es arbitrary: dir) (auto simp: written_def)

lemma written_elsewhere:
  "file \<notin> sql_file ` fst ` set es \<Longrightarrow> foldl written dir es file = dir file"
  by (induction es arbitrary: dir) (auto simp: written_def)

lemma written_entry:
  "distinct (map (\<lambda>entry. sql_file (fst entry)) es) \<Longrightarrow> (repoName, data) \<in> set es \<Longrightarrow>
   foldl written dir es (sql_file repoName) =
     Some (join [CHR 0x0A, CHR 0x0A] data @ [CHR 0x0A])"
proof (induction es arbitrary: dir)
  case Nil
  then show ?case by simp
next
  case (Cons entry es)
  show ?case
  proof (cases "entry = (repoName, data)")
    case True
    from True Cons.prems(1) have "sql_file repoName \<notin> sql_file ` fst ` set es"
      by auto
    then have "foldl written (written dir entry) es (sql_file repoName) =
        written dir entry (sql_file repoName)"
      by (rule written_elsewhere)
    moreover have "written dir entry (sql_file repoName) =
        Some (join [CHR 0x0A, CHR 0x0A] data @ [CHR 0x0A])"
      using True by (simp add: written_def)
    ultimately show ?thesis
      by simp
  next
    case False
    with Cons show ?thesis
      by simp
  qed
qed

lemma process_all_keys:
  "process_all repos s = (Inr u, s') \<Longrightarrow>
   fst ` set (results s') = fst ` set (results s) \<union> set repos"
proof (induction repos arbitrary: s)
  case Nil
  then show ?case by simp
next
  case (Cons Repository repos)
  obtain r1 s1 where p: "process Repository s = (r1, s1)"
    by fastforce
  with Cons.prems obtain u1 where r1: "r1 = Inr u1"
    by (cases r1) auto
  from process_completes [OF p [unfolded r1]] obtain data
    where "results s1 = AList.update Repository data (results s)"
    by blast
  then have "fst ` set (results s1) = {Repository} \<union> fst ` set (results s)"
    by (simp add: dom_update)
  moreover from Cons.prems p r1 have "process_all repos s1 = (Inr u, s')"
    by simp
  ultimately show ?case
    using Cons.IH by auto
qed

lemma process_frame:
  assumes "process Repository s = (r, s')"
  shows "app s' = app s \<and> files s' = files s \<and> teardowns (trace s') = teardowns (trace s)"
proof (cases "app s")
  case None
  with assms show ?thesis
    by (simp add: process_def)
next
  case (Some a)
  obtain r2 s2 where rt: "runTargets (prototype (get a Repository)) Repository s = (r2, s2)"
    by fastforce
  note u2 = runTargets_untouched [OF rt]
  show ?thesis
  proof (cases r2)
    case (Inl e2)
    with assms Some rt u2 show ?thesis
      by (simp add: process_def untouched_def)
  next
    case (Inr d)
    obtain r3 s3
      where rn: "run_nested Repository (keys (get a Repository)) ([provenance] @ d) s2 = (r3, s3)"
      by fastforce
    note u3 = run_nested_untouched [OF rn]
    from assms Some rt Inr rn u2 u3 show ?thesis
      by (auto simp: process_def untouched_def split: if_splits sum.splits)
  qed
qed

lemma process_all_frame:
  "process_all repos s = (r, s') \<Longrightarrow>
   app s' = app s \<and> files s' = files s \<and> teardowns (trace s') = teardowns (trace s)"
proof (induction repos arbitrary: s)
  case Nil
  then show ?case by simp
next
  case (Cons Repository repos)
  obtain r1 s1 where p: "process Repository s = (r1, s1)"
    by fastforce
  note frame = process_frame [OF p]
  show ?case
  proof (cases r1)
    case (Inl e)
    with Cons.prems p frame show ?thesis by simp
  next
    case (Inr u1)
    with Cons.prems p have "process_all repos s1 = (r, s')"
      by simp
    from Cons.IH [OF this] frame show ?thesis
      by simp
  qed
qed

text \<open>What a successful run leaves: the results of processing and their files.\<close>

lemma run_leaves:
  assumes "run repos env (new_SqlGenerator dir w) = (Inr u, s')"
  shows "fst ` set (results s') = set repos \<and>
    files s' = Some (foldl written Map.empty (results s')) \<and>
    (distinct repos \<longrightarrow> map fst (results s') = repos \<and>
       (\<forall>(Repository, data)\<in>set (results s'). data \<noteq> [] \<and> hd data = provenance))"
proof -
  let ?s = "new_SqlGenerator dir w :: ('a, 'b) SqlGenerator"
  from run_completes [OF assms] obtain s1 s2 s3
    where a: "setup_app env ?s = (Inr (), s1)" and b: "process_all repos s1 = (Inr (), s2)"
    and c: "write_files env s2 = (Inr (), s3)" and d: "close env (stats s3) = (Inr (), s')"
    by blast
  from setup_app_completes [OF a] have s1: "results s1 = []" "files s1 = Some Map.empty"
    by (simp_all add: new_SqlGenerator_def)
  from process_all_keys [OF b] s1 have keys2: "fst ` set (results s2) = set repos"
    by simp
  from process_all_frame [OF b] s1 have files2: "files s2 = Some Map.empty"
    by simp
  from write_entries_completes [OF c [unfolded write_files_def] files2]
  have s3: "files s3 = Some (foldl written Map.empty (results s2))"
    "results s3 = results s2"
    by simp_all
  from close_keeps [OF d] stats_keeps [of s3]
  have s': "files s' = files s3" "results s' = results s3"
    by simp_all
  have "map fst (results s2) = repos \<and>
      (\<forall>(Repository, data)\<in>set (results s2). data \<noteq> [] \<and> hd data = provenance)"
    if "distinct repos"
    using process_all_completes [OF b that] s1 by simp
  with keys2 s3 s' show ?thesis
    by simp
qed

subsection \<open>A run over the fixed target list in which no method is annotated\<close>

lemma write_entries_no_failure:
  "fails env = no_failure \<Longrightarrow> files s = Some dir \<Longrightarrow>
   write_entries env es s = (Inr (), s\<lparr>files := Some (foldl written dir es)\<rparr>)"
proof (induction es arbitrary: s dir)
  case Nil
  then show ?case by simp
next
  case (Cons entry es)
  obtain repoName data where entry: "entry = (repoName, data)"
    by (cases entry)
  let ?s = "s\<lparr>files := Some (written dir entry)\<rparr>"
  have "write_entries env (entry # es) s = write_entries env es ?s"
    using Cons.prems entry by (simp add: no_failure_def written_def)
  also have "\<dots> = (Inr (), ?s\<lparr>files := Some (foldl written (written dir entry) es)\<rparr>)"
    using Cons.prems(1) by (intro Cons.IH) simp_all
  finally show ?case
    by simp
qed

lemma length_repositories: "length repositories = 16"
  by (simp add: repositories_def)

lemma idle_setup: "setup_app idle_env (new_SqlGenerator None ()) = (Inr (), idle_start)"
  by (simp add: setup_app_def idle_env_def idle_start_def no_failure_def new_SqlGenerator_def)

lemma idle_process_all:
  "process_all repositories idle_start = (Inr (), idle_start\<lparr>results := idle_results\<rparr>)"
  by (simp add: idle_start_def idle_env_def idle_instance_def repositories_def process_def
      runTargets_def getPropertyNames_def constructor_def new_SqlGenerator_def idle_results_def)

lemma idle_write_files:
  "write_files idle_env (idle_start\<lparr>results := idle_results\<rparr>) = (Inr (), idle_written)"
proof -
  let ?s2 = "idle_start\<lparr>results := idle_results\<rparr>"
  have env: "fails idle_env = no_failure"
    by (simp add: idle_env_def)
  have dir: "files ?s2 = Some Map.empty"
    by (simp add: idle_start_def new_SqlGenerator_def)
  have res: "results ?s2 = idle_results"
    by simp
  have "write_files idle_env ?s2 = (Inr (), ?s2\<lparr>files := Some (foldl written Map.empty idle_results)\<rparr>)"
    unfolding write_files_def res by (rule write_entries_no_failure [OF env dir])
  then show ?thesis
    by (simp add: idle_written_def)
qed

lemma idle_stats:
  "stats idle_written =
     idle_written\<lparr>console := [Log ''Wrote 16 files'', Log ''Generated 16 queries'']\<rparr>"
proof -
  have counts: "length (map fst (results idle_written)) = 16"
    "length (concat (map snd (results idle_written))) = 16"
    by (simp_all add: idle_written_def idle_results_def repositories_def)
  have sixteen: "digits 16 = ''16''"
    by (simp add: digits.simps)
  have quiet: "console idle_written = []"
    by (simp add: idle_written_def idle_start_def new_SqlGenerator_def)
  show ?thesis
    unfolding stats_def counts sixteen quiet by simp
qed

lemma idle_try_block:
  "try_block repositories idle_env (new_SqlGenerator None ()) =
     (Inr (), idle_written\<lparr>console := [Log ''Wrote 16 files'', Log ''Generated 16 queries'']\<rparr>)"
  unfolding try_block_def idle_setup
  by (simp add: idle_process_all idle_write_files idle_stats)

lemma idle_close:
  "close idle_env (idle_written\<lparr>console := c\<rparr>) =
     (Inr (), idle_written\<lparr>console := c, trace := [Teardown, AppClose]\<rparr>)"
  by (simp add: close_def idle_written_def idle_start_def idle_env_def no_failure_def
      new_SqlGenerator_def)

lemma idle_run_eval:
  "idle_run =
     (idle_written
        \<lparr>console := [Log ''Wrote 16 files'', Log ''Generated 16 queries'', Log ''Done''],
         trace := [Teardown, AppClose]\<rparr>, 0)"
  unfolding idle_run_def main_def run_def idle_try_block
  by (simp add: idle_close)

lemma idle_run_result:
  "run repositories idle_env (new_SqlGenerator None ()) =
     (Inr (), idle_written
        \<lparr>console := [Log ''Wrote 16 files'', Log ''Generated 16 queries''],
         trace := [Teardown, AppClose]\<rparr>)"
  unfolding run_def idle_try_block
  by (simp add: idle_close)

lemma sql_files_of_repositories:
  "map sql_file repositories =
     [''access.repository.sql'', ''album.repository.sql'', ''api.key.repository.sql'',
      ''asset.repository.sql'', ''audit.repository.sql'', ''library.repository.sql'',
      ''move.repository.sql'', ''partner.repository.sql'', ''person.repository.sql'',
      ''shared.link.repository.sql'', ''search.repository.sql'',
      ''system.config.repository.sql'', ''system.metadata.repository.sql'',
      ''tag.repository.sql'', ''user.token.repository.sql'', ''user.repository.sql'']"
  by (simp add: repositories_def sql_file_def filename_def is_upper_def toLowerCase_def)

lemma idle_asset_file:
  "foldl written Map.empty idle_results ''asset.repository.sql'' = Some (provenance @ [CHR 0x0A])"
proof -
  have "map (\<lambda>entry. sql_file (fst entry)) idle_results = map sql_file repositories"
    by (simp add: idle_results_def comp_def)
  then have "distinct (map (\<lambda>entry. sql_file (fst entry)) idle_results)"
    by (simp add: sql_files_of_repositories)
  moreover have "(''AssetRepository'', [provenance]) \<in> set idle_results"
    by (simp add: idle_results_def repositories_def)
  ultimately have "foldl written Map.empty idle_results (sql_file ''AssetRepository'') =
      Some (join [CHR 0x0A, CHR 0x0A] [provenance] @ [CHR 0x0A])"
    by (rule written_entry)
  moreover have "sql_file ''AssetRepository'' = ''asset.repository.sql''"
    by (simp add: sql_file_def filename_def is_upper_def toLowerCase_def)
  ultimately show ?thesis
    by simp
qed

subsection \<open>What is stored is what was captured\<close>

lemma invoke_case_world:
  "invoke_case label key target q s = (r, s') \<Longrightarrow>
   world s' = snd (target (params q) (world s))"
  by (auto simp: invoke_case_def Let_def clear_def split: outcome.splits)

lemma block_header:
  "block (queryLabel label key nm) stmts =
   join [CHR 0x0A] ((''-- '' @ label @ ''.'' @ key @ case_suffix nm) # stmts)"
  by (simp add: block_def queryLabel_suffix)

lemma run_queries_captures:
  "run_queries label key target qs data s = (Inr d, s') \<Longrightarrow>
   d = data @ fst (case_blocks label key target qs (world s)) \<and>
   world s' = snd (case_blocks label key target qs (world s))"
proof (induction qs arbitrary: data s)
  case Nil
  then show ?case by simp
next
  case (Cons q qs)
  let ?called = "target (params q) (world s)"
  obtain r1 s1 where ic: "invoke_case label key target q s = (r1, s1)"
    by fastforce
  from Cons.prems ic obtain u where r1: "r1 = Inr u"
    by (cases r1) auto
  have rec: "queries (sqlLogger s1) = fst (fst ?called)"
    using ic by (rule invoke_case_queries)
  have w1: "world s1 = snd ?called"
    using ic by (rule invoke_case_world)
  show ?case
  proof (cases "fst (fst ?called) = []")
    case True
    let ?s2 = "s1\<lparr>console := console s1 @
        [Warn (''No queries recorded for '' @ queryLabel label key (name q))]\<rparr>"
    from True rec Cons.prems ic r1
    have "run_queries label key target qs data ?s2 = (Inr d, s')"
      by simp
    from Cons.IH [OF this] w1 True show ?thesis
      by (simp add: Let_def)
  next
    case False
    let ?b = "block (queryLabel label key (name q)) (queries (sqlLogger s1))"
    from False rec Cons.prems ic r1
    have "run_queries label key target qs (data @ [?b]) s1 = (Inr d, s')"
      by simp
    from Cons.IH [OF this] w1 False rec show ?thesis
      by (simp add: Let_def block_header)
  qed
qed

lemma default_case_cases_to_run: "default_case md = cases_to_run md"
  by (simp add: default_case_def cases_to_run_def)

lemma object_blocks_skip:
  "\<forall>md target. map_of obj key \<noteq> Some (Function (Some md) target) \<Longrightarrow>
   object_blocks label obj (key # ks) w = object_blocks label obj ks w"
  by (auto split: option.splits property.splits)

lemma object_blocks_annotated:
  "map_of obj key = Some (Function (Some md) target) \<Longrightarrow>
   object_blocks label obj (key # ks) w =
     (let here = case_blocks label key target (cases_to_run md) w;
          later = object_blocks label obj ks (snd here)
      in (fst here @ fst later, snd later))"
  by simp

lemma run_keys_captures:
  "run_keys label obj ks data s = (Inr d, s') \<Longrightarrow>
   d = data @ fst (object_blocks label obj ks (world s)) \<and>
   world s' = snd (object_blocks label obj ks (world s))"
proof (induction ks arbitrary: data s)
  case Nil
  then show ?case by simp
next
  case (Cons key ks)
  show ?case
  proof (cases "\<exists>md target. map_of obj key = Some (Function (Some md) target)")
    case False
    then have skip: "\<forall>md target. map_of obj key \<noteq> Some (Function (Some md) target)"
      by simp
    from Cons.prems have "run_keys label obj ks data s = (Inr d, s')"
      unfolding run_keys_skip [OF skip] .
    from Cons.IH [OF this] show ?thesis
      unfolding object_blocks_skip [OF skip] .
  next
    case True
    then obtain md target where ann: "map_of obj key = Some (Function (Some md) target)"
      by blast
    obtain r1 s1 where rq: "run_queries label key target (default_case md) data s = (r1, s1)"
      by fastforce
    with Cons.prems [unfolded run_keys_annotated [OF ann]] obtain d1 where r1: "r1 = Inr d1"
      by (cases r1) auto
    from run_queries_captures [OF rq [unfolded r1]]
    have d1: "d1 = data @ fst (case_blocks label key target (cases_to_run md) (world s))"
      and w1: "world s1 = snd (case_blocks label key target (cases_to_run md) (world s))"
      by (simp_all add: default_case_cases_to_run)
    from Cons.prems [unfolded run_keys_annotated [OF ann]] rq r1
    have "run_keys label obj ks d1 s1 = (Inr d, s')"
      by simp
    from Cons.IH [OF this] d1 w1 show ?thesis
      unfolding object_blocks_annotated [OF ann] by (simp add: Let_def)
  qed
qed

lemma runTargets_captures:
  "runTargets obj label s = (Inr d, s') \<Longrightarrow>
   d = fst (object_blocks label obj (map fst obj) (world s)) \<and>
   world s' = snd (object_blocks label obj (map fst obj) (world s))"
  unfolding runTargets_def getPropertyNames_def by (drule run_keys_captures) simp

lemma run_nested_captures:
  "run_nested repo subs data s = (Inr d, s') \<Longrightarrow>
   d = data @ fst (nested_blocks repo subs (world s)) \<and>
   world s' = snd (nested_blocks repo subs (world s))"
proof (induction subs arbitrary: data s)
  case Nil
  then show ?case by simp
next
  case (Cons sub subs)
  obtain key subInstance where sub: "sub = (key, subInstance)"
    by (cases sub)
  obtain r1 s1 where rt: "runTargets subInstance (repo @ ''.'' @ key) s = (r1, s1)"
    by fastforce
  with Cons.prems sub obtain d1 where r1: "r1 = Inr d1"
    by (cases r1) auto
  note here = runTargets_captures [OF rt [unfolded r1]]
  from Cons.prems sub rt r1 have "run_nested repo subs (data @ d1) s1 = (Inr d, s')"
    by simp
  from Cons.IH [OF this] here sub show ?case
    by (simp add: Let_def)
qed

lemma process_captures:
  assumes "process Repository s = (Inr u, s')" and "app s = Some a"
  shows "results s' =
      AList.update Repository
        (provenance # fst (repository_blocks Repository (get a Repository) (world s))) (results s) \<and>
    world s' = snd (repository_blocks Repository (get a Repository) (world s))"
proof -
  let ?i = "get a Repository"
  obtain r1 s1 where rt: "runTargets (prototype ?i) Repository s = (r1, s1)"
    by fastforce
  with assms obtain top where r1: "r1 = Inr top"
    by (cases r1) (auto simp: process_def)
  note own = runTargets_captures [OF rt [unfolded r1]]
  have u1: "untouched s s1"
    using rt by (rule runTargets_untouched)
  show ?thesis
  proof (cases "Repository = ''AccessRepository''")
    case False
    with assms rt r1
    have "s' = s1\<lparr>results := AList.update Repository ([provenance] @ top) (results s1)\<rparr>"
      by (simp add: process_def)
    with own u1 False show ?thesis
      by (simp add: repository_blocks_def untouched_def Let_def)
  next
    case True
    obtain r2 s2 where rn: "run_nested Repository (keys ?i) ([provenance] @ top) s1 = (r2, s2)"
      by fastforce
    with assms rt r1 True obtain d where r2: "r2 = Inr d"
      by (cases r2) (auto simp: process_def)
    note inner = run_nested_captures [OF rn [unfolded r2]]
    have u2: "untouched s1 s2"
      using rn by (rule run_nested_untouched)
    from assms rt r1 True rn r2
    have "s' = s2\<lparr>results := AList.update Repository d (results s2)\<rparr>"
      by (simp add: process_def)
    with own inner u1 u2 True show ?thesis
      by (simp add: repository_blocks_def untouched_def Let_def)
  qed
qed

lemma update_fresh: "k \<notin> fst ` set al \<Longrightarrow> AList.update k v al = al @ [(k, v)]"
  by (induction al) auto

lemma captured_names: "map fst (captured repos a w) = repos"
  by (induction repos arbitrary: w) (simp_all add: Let_def)

lemma process_all_captures:
  "process_all repos s = (Inr u, s') \<Longrightarrow> app s = Some a \<Longrightarrow>
   distinct repos \<Longrightarrow> set repos \<inter> fst ` set (results s) = {} \<Longrightarrow>
   results s' =
     results s @ map (\<lambda>(Repository, blocks). (Repository, provenance # blocks))
       (captured repos a (world s))"
proof (induction repos arbitrary: s)
  case Nil
  then show ?case by simp
next
  case (Cons Repository repos)
  let ?here = "repository_blocks Repository (get a Repository) (world s)"
  obtain r1 s1 where p: "process Repository s = (r1, s1)"
    by fastforce
  with Cons.prems(1) obtain u1 where r1: "r1 = Inr u1"
    by (cases r1) auto
  from process_captures [OF p [unfolded r1] Cons.prems(2)]
  have res: "results s1 = AList.update Repository (provenance # fst ?here) (results s)"
    and w1: "world s1 = snd ?here"
    by simp_all
  from Cons.prems(4) have fresh: "Repository \<notin> fst ` set (results s)"
    by auto
  have res1: "results s1 = results s @ [(Repository, provenance # fst ?here)]"
    unfolding res using fresh by (rule update_fresh)
  have app1: "app s1 = Some a"
    using process_frame [OF p] Cons.prems(2) by simp
  from Cons.prems(1) p r1 have rest: "process_all repos s1 = (Inr u, s')"
    by simp
  have disj: "set repos \<inter> fst ` set (results s1) = {}"
    unfolding res1 using Cons.prems(3,4) by auto
  from Cons.prems(3) have "distinct repos"
    by simp
  from Cons.IH [OF rest app1 this disj] res1 w1 show ?case
    by (simp add: Let_def)
qed

text \<open>
  After a successful run over distinct repositories the result record holds, for each
  repository in order, the provenance line and then the blocks it produced.
\<close>

lemma run_captures:
  assumes "run repos env (new_SqlGenerator dir w) = (Inr u, s')" and "distinct repos"
  shows "results s' =
    map (\<lambda>(Repository, blocks). (Repository, provenance # blocks))
      (captured repos (application env) w)"
proof -
  let ?s = "new_SqlGenerator dir w :: ('a, 'b) SqlGenerator"
  from run_completes [OF assms(1)] obtain s1 s2 s3
    where a: "setup_app env ?s = (Inr (), s1)" and b: "process_all repos s1 = (Inr (), s2)"
    and c: "write_files env s2 = (Inr (), s3)" and d: "close env (stats s3) = (Inr (), s')"
    by blast
  from setup_app_completes [OF a]
  have s1: "results s1 = []" "app s1 = Some (application env)" "world s1 = w"
    by (simp_all add: new_SqlGenerator_def)
  from s1 have "set repos \<inter> fst ` set (results s1) = {}"
    by simp
  from process_all_captures [OF b s1(2) assms(2) this] s1
  have "results s2 =
      map (\<lambda>(Repository, blocks). (Repository, provenance # blocks))
        (captured repos (application env) w)"
    by simp
  moreover obtain dir2 where "files s2 = Some dir2"
    using process_all_frame [OF b] setup_app_completes [OF a] by simp
  from write_entries_completes [OF c [unfolded write_files_def] this]
  have "results s3 = results s2"
    by simp
  moreover from close_keeps [OF d] stats_keeps [of s3] have "results s' = results s3"
    by simp
  ultimately show ?thesis
    by simp
qed

text \<open>The file of a repository holds its blocks, whatever they are.\<close>

lemma run_file_of_repository:
  assumes "run repos env (new_SqlGenerator dir w) = (Inr u, s')"
    and "distinct (map sql_file repos)"
    and "map_of (captured repos (application env) w) Repository = Some blocks"
  shows "\<exists>d. files s' = Some d \<and>
    d (sql_file Repository) =
      Some (join [CHR 0x0A, CHR 0x0A] (provenance # blocks) @ [CHR 0x0A])"
proof -
  from assms(2) have distinct: "distinct repos"
    by (rule distinct_map [THEN iffD1, THEN conjunct1])
  let ?stored = "map (\<lambda>(Repository, blocks). (Repository, provenance # blocks))
      (captured repos (application env) w)"
  have res: "results s' = ?stored"
    using assms(1) distinct by (rule run_captures)
  from run_leaves [OF assms(1)]
  have dir: "files s' = Some (foldl written Map.empty ?stored)"
    unfolding res by simp
  from assms(3) have "(Repository, blocks) \<in> set (captured repos (application env) w)"
    by (rule map_of_SomeD)
  then have entry: "(Repository, provenance # blocks) \<in> set ?stored"
    by force
  have "map (\<lambda>entry. sql_file (fst entry)) ?stored =
      map sql_file (map fst (captured repos (application env) w))"
    by (simp add: comp_def case_prod_beta)
  then have "distinct (map (\<lambda>entry. sql_file (fst entry)) ?stored)"
    using assms(2) by (simp add: captured_names)
  from written_entry [OF this entry] dir show ?thesis
    by simp
qed

subsection \<open>Which files a run leaves\<close>

text \<open>
  Claim C1, as stated, fails: a repository that produced no block still gets its file.
  In the run over the fixed target list in which no method is annotated, the run succeeds
  and nothing is invoked, the entry of \<open>AssetRepository\<close> holds the provenance line
  alone, and \<open>asset.repository.sql\<close> is in the directory with that line.
\<close>

theorem file_without_blocks:
  "snd idle_run = 0 \<and>
   trace (fst idle_run) = [Teardown, AppClose] \<and>
   map_of (results (fst idle_run)) ''AssetRepository'' = Some [provenance] \<and>
   files (fst idle_run) \<noteq> None \<and>
   the (files (fst idle_run)) ''asset.repository.sql'' = Some (provenance @ [CHR 0x0A])"
proof -
  have "map_of idle_results ''AssetRepository'' = Some [provenance]"
    by (simp add: idle_results_def repositories_def)
  then show ?thesis
    by (simp add: idle_run_eval idle_written_def idle_asset_file)
qed

text \<open>
  Claim C1, amended. After a successful run the output directory holds exactly the files
  named after the repositories of the target list, one for each of them, whether or not
  the repository produced a block; the file of a repository that produced no block holds
  the provenance line alone.
\<close>

theorem files_after_run:
  assumes "run repos env (new_SqlGenerator dir w) = (Inr (), s')"
  shows "\<exists>d. files s' = Some d \<and> dom d = sql_file ` set repos \<and>
    (distinct (map sql_file repos) \<longrightarrow>
       (\<forall>Repository.
          map_of (captured repos (application env) w) Repository = Some [] \<longrightarrow>
          d (sql_file Repository) = Some (provenance @ [CHR 0x0A])))"
proof -
  from run_leaves [OF assms]
  have keys: "fst ` set (results s') = set repos"
    and dir: "files s' = Some (foldl written Map.empty (results s'))"
    by simp_all
  let ?d = "foldl written Map.empty (results s')"
  have names: "dom ?d = sql_file ` set repos"
    unfolding dom_written keys by simp
  have "?d (sql_file Repository) = Some (provenance @ [CHR 0x0A])"
    if "distinct (map sql_file repos)"
      and "map_of (captured repos (application env) w) Repository = Some []"
    for Repository
    using run_file_of_repository [OF assms that] dir by auto
  with dir names show ?thesis
    by blast
qed

lemma idle_captured:
  "captured repositories (application idle_env) () = map (\<lambda>Repository. (Repository, [])) repositories"
  by (simp add: repositories_def idle_env_def idle_instance_def constructor_def
      repository_blocks_def Let_def)

theorem files_after_run_witness:
  "fst (run repositories idle_env (new_SqlGenerator None ())) = Inr () \<and>
   distinct (map sql_file repositories) \<and>
   map_of (captured repositories (application idle_env) ()) ''AssetRepository'' = Some [] \<and>
   sql_file ''AssetRepository'' = ''asset.repository.sql'' \<and>
   (\<exists>d. files (snd (run repositories idle_env (new_SqlGenerator None ()))) = Some d \<and>
      dom d = sql_file ` set repositories \<and>
      d ''asset.repository.sql'' = Some (provenance @ [CHR 0x0A])) \<and>
   length (remdups (map sql_file repositories)) = 16"
proof -
  have names: "distinct (map sql_file repositories)"
    unfolding sql_files_of_repositories by simp
  have none: "map_of (captured repositories (application idle_env) ()) ''AssetRepository'' = Some []"
    unfolding idle_captured by (simp add: repositories_def)
  have fname: "sql_file ''AssetRepository'' = ''asset.repository.sql''"
    by (simp add: sql_file_def filename_def is_upper_def toLowerCase_def)
  have count: "length (remdups (map sql_file repositories)) = 16"
    unfolding sql_files_of_repositories by simp
  from files_after_run [OF idle_run_result] names none
  obtain d where "files (snd (run repositories idle_env (new_SqlGenerator None ()))) = Some d"
    and "dom d = sql_file ` set repositories"
    and "d (sql_file ''AssetRepository'') = Some (provenance @ [CHR 0x0A])"
    by (auto simp: idle_run_result)
  with names none fname count show ?thesis
    by (auto simp: idle_run_result)
qed

subsection \<open>The summary\<close>

lemma scenario_run_eval:
  "scenario_run =
     (\<lparr>app = Some \<lparr>get = (\<lambda>Repository. RepoA)\<rparr>,
       sqlLogger = \<lparr>queries = [''SELECT * FROM a'']\<rparr>,
       results = [(''RepoA'', [provenance, ''-- RepoA.findAll'' @ [CHR 0x0A] @ ''SELECT * FROM a''])],
       console = [Log ''Wrote 1 files'', Log ''Generated 2 queries'', Log ''Done''],
       files = Some [''repo.a.sql'' \<mapsto>
         provenance @ [CHR 0x0A, CHR 0x0A] @ ''-- RepoA.findAll'' @ [CHR 0x0A] @
         ''SELECT * FROM a'' @ [CHR 0x0A]],
       world = (),
       trace = [Invoke ''RepoA'' ''findAll'' [], Teardown, AppClose]\<rparr>, 0)"
  by (simp add: scenario_run_def scenario_env_def RepoA_def findAll_def main_def run_def
      try_block_def setup_app_def process_def runTargets_def getPropertyNames_def
      write_files_def stats_def close_def new_SqlGenerator_def invoke_case_def default_case_def
      clear_def logQuery_def queryLabel_def block_def provenance_def sql_file_def filename_def
      is_upper_def toLowerCase_def no_failure_def constructor_def digits.simps)

text \<open>
  The number that \<open>stats\<close> prints as generated queries is the number of elements of
  all entries, and every entry has the provenance line besides its blocks.
\<close>

lemma flat_length:
  "\<forall>(Repository, data)\<in>set rs. data \<noteq> [] \<Longrightarrow>
   length (concat (map snd rs)) = length rs + sum_list (map (\<lambda>(Repository, data). length (tl data)) rs)"
  by (induction rs) auto

text \<open>
  Claim C3 against the code. In the end-to-end scenario one method is invoked once and
  one block is captured, and the summary says \<open>Wrote 1 files\<close> and
  \<open>Generated 2 queries\<close>: the second number counts the provenance line of the
  repository as well.
\<close>

theorem summary_counts_provenance_lines:
  "snd scenario_run = 0 \<and>
   trace (fst scenario_run) = [Invoke ''RepoA'' ''findAll'' [], Teardown, AppClose] \<and>
   results (fst scenario_run) =
     [(''RepoA'', [provenance, ''-- RepoA.findAll'' @ [CHR 0x0A] @ ''SELECT * FROM a''])] \<and>
   console (fst scenario_run) =
     [Log ''Wrote 1 files'', Log ''Generated 2 queries'', Log ''Done'']"
  by (simp add: scenario_run_eval)

subsection \<open>The content of a file\<close>

lemma join_Cons: "join sep (x # xs) = x @ concat (map (\<lambda>y. sep @ y) xs)"
  by (induction xs arbitrary: x) simp_all

lemma mixed_run_eval:
  "run [''AccessRepository'', ''RepoB''] mixed_env (new_SqlGenerator None ()) =
     (Inr (),
      \<lparr>app = Some (application mixed_env),
       sqlLogger = \<lparr>queries = [''SELECT * FROM a'']\<rparr>,
       results =
         [(''AccessRepository'', [provenance,
            ''-- AccessRepository.findAll'' @ [CHR 0x0A] @ ''SELECT * FROM a'',
            ''-- AccessRepository.album.checkOwnerAccess (owner)'' @ [CHR 0x0A] @
              ''SELECT id FROM albums WHERE owner = $1'']),
          (''RepoB'', [provenance,
            ''-- RepoB.lookup (by id)'' @ [CHR 0x0A] @ ''SELECT * FROM b WHERE id = $1'',
            ''-- RepoB.findAll'' @ [CHR 0x0A] @ ''SELECT * FROM a''])],
       console = [Err ''RepoB.lookup (by id) error: Error: no row'',
         Err ''RepoB.broken error: Error: bad argument'',
         Warn ''No queries recorded for RepoB.broken'',
         Log ''Wrote 2 files'', Log ''Generated 6 queries''],
       files = Some [''access.repository.sql'' \<mapsto>
           provenance @ [CHR 0x0A, CHR 0x0A] @
           ''-- AccessRepository.findAll'' @ [CHR 0x0A] @ ''SELECT * FROM a'' @
           [CHR 0x0A, CHR 0x0A] @
           ''-- AccessRepository.album.checkOwnerAccess (owner)'' @ [CHR 0x0A] @
           ''SELECT id FROM albums WHERE owner = $1'' @ [CHR 0x0A],
         ''repo.b.sql'' \<mapsto>
           provenance @ [CHR 0x0A, CHR 0x0A] @
           ''-- RepoB.lookup (by id)'' @ [CHR 0x0A] @ ''SELECT * FROM b WHERE id = $1'' @
           [CHR 0x0A, CHR 0x0A] @ ''-- RepoB.findAll'' @ [CHR 0x0A] @ ''SELECT * FROM a'' @
           [CHR 0x0A]],
       world = (),
       trace = [Invoke ''AccessRepository'' ''findAll'' [],
         Invoke ''AccessRepository.album'' ''checkOwnerAccess'' [''user-1''],
         Invoke ''RepoB'' ''lookup'' [''id-1''], Invoke ''RepoB'' ''broken'' [],
         Invoke ''RepoB'' ''findAll'' [], Teardown, AppClose]\<rparr>)"
  by (simp add: mixed_env_def Access_def RepoB_def findAll_def lookup_def broken_def
      checkOwnerAccess_def run_def try_block_def setup_app_def process_def runTargets_def
      getPropertyNames_def write_files_def stats_def close_def new_SqlGenerator_def
      invoke_case_def default_case_def clear_def logQuery_def queryLabel_def block_def
      provenance_def sql_file_def filename_def is_upper_def toLowerCase_def no_failure_def
      constructor_def digits.simps)

lemma mixed_captured:
  "captured [''AccessRepository'', ''RepoB''] (application mixed_env) () =
     [(''AccessRepository'',
       [''-- AccessRepository.findAll'' @ [CHR 0x0A] @ ''SELECT * FROM a'',
        ''-- AccessRepository.album.checkOwnerAccess (owner)'' @ [CHR 0x0A] @
          ''SELECT id FROM albums WHERE owner = $1'']),
      (''RepoB'',
       [''-- RepoB.lookup (by id)'' @ [CHR 0x0A] @ ''SELECT * FROM b WHERE id = $1'',
        ''-- RepoB.findAll'' @ [CHR 0x0A] @ ''SELECT * FROM a''])]"
  by (simp add: mixed_env_def Access_def RepoB_def findAll_def lookup_def broken_def
      checkOwnerAccess_def constructor_def repository_blocks_def cases_to_run_def
      case_suffix_def Let_def)

text \<open>
  Claim C8. After a successful run the file of a repository holds the provenance line
  first, then the blocks that the repository produced, in capture order, each preceded by
  one blank line, and one newline at the end; the same blocks, in the same order, are the
  repository's entry of the result record. In the end-to-end scenario the directory holds
  the one file \<open>repo.a.sql\<close> with the provenance line, the header
  \<open>-- RepoA.findAll\<close>, the statement \<open>SELECT * FROM a\<close> and a newline.
\<close>

theorem file_contents:
  assumes "run repos env (new_SqlGenerator dir w) = (Inr (), s')"
    and "distinct (map sql_file repos)"
    and "map_of (captured repos (application env) w) Repository = Some blocks"
  shows "(\<exists>d. files s' = Some d \<and>
      d (sql_file Repository) =
        Some (provenance @ concat (map (\<lambda>b. [CHR 0x0A, CHR 0x0A] @ b) blocks) @ [CHR 0x0A])) \<and>
    map_of (results s') Repository = Some (provenance # blocks) \<and>
    files (fst scenario_run) =
      Some [''repo.a.sql'' \<mapsto>
        ''-- NOTE: This file is auto generated by ./sql-generator'' @ [CHR 0x0A, CHR 0x0A] @
        ''-- RepoA.findAll'' @ [CHR 0x0A] @ ''SELECT * FROM a'' @ [CHR 0x0A]]"
proof (intro conjI)
  from run_file_of_repository [OF assms]
  show "\<exists>d. files s' = Some d \<and>
      d (sql_file Repository) =
        Some (provenance @ concat (map (\<lambda>b. [CHR 0x0A, CHR 0x0A] @ b) blocks) @ [CHR 0x0A])"
    by (simp add: join_Cons)
next
  from assms(2) have distinct: "distinct repos"
    by (rule distinct_map [THEN iffD1, THEN conjunct1])
  let ?stored = "map (\<lambda>(Repository, blocks). (Repository, provenance # blocks))
      (captured repos (application env) w)"
  have res: "results s' = ?stored"
    using assms(1) distinct by (rule run_captures)
  have "map_of ?stored Repository =
      map_option (\<lambda>blocks. provenance # blocks)
        (map_of (captured repos (application env) w) Repository)"
    by (simp add: map_of_map)
  with assms(3) res show "map_of (results s') Repository = Some (provenance # blocks)"
    by simp
next
  show "files (fst scenario_run) =
      Some [''repo.a.sql'' \<mapsto>
        ''-- NOTE: This file is auto generated by ./sql-generator'' @ [CHR 0x0A, CHR 0x0A] @
        ''-- RepoA.findAll'' @ [CHR 0x0A] @ ''SELECT * FROM a'' @ [CHR 0x0A]]"
    by (simp add: scenario_run_eval provenance_def)
qed

theorem file_contents_witness:
  "fst (run [''AccessRepository'', ''RepoB''] mixed_env (new_SqlGenerator None ())) = Inr () \<and>
   distinct (map sql_file [''AccessRepository'', ''RepoB'']) \<and>
   map_of (captured [''AccessRepository'', ''RepoB''] (application mixed_env) ())
       ''AccessRepository'' =
     Some [''-- AccessRepository.findAll'' @ [CHR 0x0A] @ ''SELECT * FROM a'',
           ''-- AccessRepository.album.checkOwnerAccess (owner)'' @ [CHR 0x0A] @
             ''SELECT id FROM albums WHERE owner = $1''] \<and>
   sql_file ''AccessRepository'' = ''access.repository.sql'' \<and>
   the (files (snd (run [''AccessRepository'', ''RepoB''] mixed_env (new_SqlGenerator None ()))))
       ''access.repository.sql'' =
     Some (provenance @ [CHR 0x0A, CHR 0x0A] @
       ''-- AccessRepository.findAll'' @ [CHR 0x0A] @ ''SELECT * FROM a'' @
       [CHR 0x0A, CHR 0x0A] @
       ''-- AccessRepository.album.checkOwnerAccess (owner)'' @ [CHR 0x0A] @
       ''SELECT id FROM albums WHERE owner = $1'' @ [CHR 0x0A]) \<and>
   map_of (results (snd (run [''AccessRepository'', ''RepoB''] mixed_env
       (new_SqlGenerator None ())))) ''AccessRepository'' =
     Some [provenance,
       ''-- AccessRepository.findAll'' @ [CHR 0x0A] @ ''SELECT * FROM a'',
       ''-- AccessRepository.album.checkOwnerAccess (owner)'' @ [CHR 0x0A] @
         ''SELECT id FROM albums WHERE owner = $1'']"
proof -
  let ?blocks = "[''-- AccessRepository.findAll'' @ [CHR 0x0A] @ ''SELECT * FROM a'',
      ''-- AccessRepository.album.checkOwnerAccess (owner)'' @ [CHR 0x0A] @
        ''SELECT id FROM albums WHERE owner = $1'']"
  have names: "distinct (map sql_file [''AccessRepository'', ''RepoB''])"
    by (simp add: sql_file_def filename_def is_upper_def toLowerCase_def)
  have blocks: "map_of (captured [''AccessRepository'', ''RepoB''] (application mixed_env) ())
      ''AccessRepository'' = Some ?blocks"
    unfolding mixed_captured by simp
  have fname: "sql_file ''AccessRepository'' = ''access.repository.sql''"
    by (simp add: sql_file_def filename_def is_upper_def toLowerCase_def)
  show ?thesis
    using file_contents [OF mixed_run_eval names blocks] names blocks fname
    by (auto simp: mixed_run_eval)
qed

subsection \<open>Teardown and the exit status\<close>







subsection \<open>Rejected calls\<close>

lemma hush_fields:
  "results (hush s) = results s" "files (hush s) = files s" "world (hush s) = world s"
  "trace (hush s) = trace s" "sqlLogger (hush s) = sqlLogger s"
  "app (hush s) = map_option calm_app (app s)"
  "console (hush s) = filter (\<lambda>l. \<not> is_Err l) (console s)"
  by (simp_all add: hush_def)

lemma hush_updates:
  "hush (s\<lparr>console := console s @ [Err m]\<rparr>) = hush s"
  "hush (s\<lparr>console := console s @ [Warn m]\<rparr>) = (hush s)\<lparr>console := console (hush s) @ [Warn m]\<rparr>"
  "hush (s\<lparr>results := rs\<rparr>) = (hush s)\<lparr>results := rs\<rparr>"
  "hush (s\<lparr>files := fs\<rparr>) = (hush s)\<lparr>files := fs\<rparr>"
  "hush (s\<lparr>trace := tr\<rparr>) = (hush s)\<lparr>trace := tr\<rparr>"
  by (simp_all add: hush_def)

lemma invoke_case_calm:
  "invoke_case label key (calm target) q (hush s) =
   map_prod id hush (invoke_case label key target q s)"
proof -
  obtain stmts out w' where called: "target (params q) (world s) = ((stmts, out), w')"
    by (metis surj_pair)
  show ?thesis
    by (cases out) (simp_all add: invoke_case_def calm_def called hush_def Let_def)
qed

lemma run_queries_calm:
  "run_queries label key (calm target) qs data (hush s) =
   map_prod id hush (run_queries label key target qs data s)"
proof (induction qs arbitrary: data s)
  case Nil
  show ?case by simp
next
  case (Cons q qs)
  obtain r1 s1 where ic: "invoke_case label key target q s = (r1, s1)"
    by fastforce
  then have ic': "invoke_case label key (calm target) q (hush s) = (r1, hush s1)"
    by (simp add: invoke_case_calm)
  show ?case
  proof (cases r1)
    case (Inl e)
    with ic ic' show ?thesis by simp
  next
    case (Inr u)
    show ?thesis
    proof (cases "length (queries (sqlLogger s1)) = 0")
      case True
      let ?w = "Warn (''No queries recorded for '' @ queryLabel label key (name q))"
      have "run_queries label key (calm target) (q # qs) data (hush s) =
          run_queries label key (calm target) qs data (hush (s1\<lparr>console := console s1 @ [?w]\<rparr>))"
        using ic' Inr True by (simp add: hush_fields hush_updates)
      also have "\<dots> = map_prod id hush
          (run_queries label key target qs data (s1\<lparr>console := console s1 @ [?w]\<rparr>))"
        by (rule Cons.IH)
      also have "\<dots> = map_prod id hush (run_queries label key target (q # qs) data s)"
        using ic Inr True by simp
      finally show ?thesis .
    next
      case False
      let ?d = "data @ [block (queryLabel label key (name q)) (queries (sqlLogger s1))]"
      have "run_queries label key (calm target) (q # qs) data (hush s) =
          run_queries label key (calm target) qs ?d (hush s1)"
        using ic' Inr False by (simp add: hush_fields)
      also have "\<dots> = map_prod id hush (run_queries label key target qs ?d s1)"
        by (rule Cons.IH)
      also have "\<dots> = map_prod id hush (run_queries label key target (q # qs) data s)"
        using ic Inr False by simp
      finally show ?thesis .
    qed
  qed
qed

lemma map_of_calm_object:
  "map_of (calm_object obj) key = map_option calm_property (map_of obj key)"
  by (induction obj) (auto simp: calm_object_def)

lemma getPropertyNames_calm: "getPropertyNames (calm_object obj) = getPropertyNames obj"
  by (induction obj) (auto simp: calm_object_def getPropertyNames_def)

lemma run_keys_calm:
  "run_keys label (calm_object instance) ks data (hush s) =
   map_prod id hush (run_keys label instance ks data s)"
proof (induction ks arbitrary: data s)
  case Nil
  show ?case by simp
next
  case (Cons key ks)
  show ?case
  proof (cases "\<exists>md target. map_of instance key = Some (Function (Some md) target)")
    case False
    then have skip: "\<forall>md target. map_of instance key \<noteq> Some (Function (Some md) target)"
      by simp
    have skip': "\<forall>md target. map_of (calm_object instance) key \<noteq> Some (Function (Some md) target)"
    proof (intro allI notI)
      fix md target
      assume "map_of (calm_object instance) key = Some (Function (Some md) target)"
      then obtain p where "map_of instance key = Some p" "calm_property p = Function (Some md) target"
        by (auto simp: map_of_calm_object)
      with skip show False
        by (cases p) auto
    qed
    show ?thesis
      unfolding run_keys_skip [OF skip] run_keys_skip [OF skip'] by (rule Cons.IH)
  next
    case True
    then obtain md target where ann: "map_of instance key = Some (Function (Some md) target)"
      by blast
    then have ann': "map_of (calm_object instance) key = Some (Function (Some md) (calm target))"
      by (simp add: map_of_calm_object)
    obtain r1 s1 where rq: "run_queries label key target (default_case md) data s = (r1, s1)"
      by fastforce
    then have rq': "run_queries label key (calm target) (default_case md) data (hush s) = (r1, hush s1)"
      by (simp add: run_queries_calm)
    show ?thesis
    proof (cases r1)
      case (Inl e)
      show ?thesis
        unfolding run_keys_annotated [OF ann] run_keys_annotated [OF ann'] rq rq'
        using Inl by simp
    next
      case (Inr d)
      show ?thesis
        unfolding run_keys_annotated [OF ann] run_keys_annotated [OF ann'] rq rq'
        using Inr Cons.IH by simp
    qed
  qed
qed

lemma runTargets_calm:
  "runTargets (calm_object instance) label (hush s) =
   map_prod id hush (runTargets instance label s)"
  by (simp add: runTargets_def getPropertyNames_calm run_keys_calm)

lemma run_nested_calm:
  "run_nested repo (map (\<lambda>(key, sub). (key, calm_object sub)) subs) data (hush s) =
   map_prod id hush (run_nested repo subs data s)"
proof (induction subs arbitrary: data s)
  case Nil
  show ?case by simp
next
  case (Cons sub subs)
  obtain key subInstance where sub: "sub = (key, subInstance)"
    by (cases sub)
  obtain r1 s1 where rt: "runTargets subInstance (repo @ ''.'' @ key) s = (r1, s1)"
    by fastforce
  then have rt': "runTargets (calm_object subInstance) (repo @ ''.'' @ key) (hush s) = (r1, hush s1)"
    by (simp add: runTargets_calm)
  have step: "run_nested repo (sub # subs) data s =
      (case runTargets subInstance (repo @ ''.'' @ key) s of
         (Inl e, s') \<Rightarrow> (Inl e, s')
       | (Inr d, s') \<Rightarrow> run_nested repo subs (data @ d) s')"
    by (simp add: sub)
  have step': "run_nested repo (map (\<lambda>(key, sub). (key, calm_object sub)) (sub # subs)) data (hush s) =
      (case runTargets (calm_object subInstance) (repo @ ''.'' @ key) (hush s) of
         (Inl e, s') \<Rightarrow> (Inl e, s')
       | (Inr d, s') \<Rightarrow>
           run_nested repo (map (\<lambda>(key, sub). (key, calm_object sub)) subs) (data @ d) s')"
    by (simp add: sub)
  show ?case
    unfolding step step' rt rt'
    using Cons.IH by (cases r1) simp_all
qed

lemma process_calm:
  "process Repository (hush s) = map_prod id hush (process Repository s)"
proof (cases "app s")
  case None
  then show ?thesis
    by (simp add: process_def hush_fields)
next
  case (Some a)
  have inst: "get (calm_app a) R = calm_instance (get a R)" for R
    by (simp add: calm_app_def)
  have proto: "prototype (calm_instance i) = calm_object (prototype i)"
    and subs: "keys (calm_instance i) = map (\<lambda>(key, sub). (key, calm_object sub)) (keys i)"
    for i :: "('a, 'b) repository_instance"
    by (simp_all add: calm_instance_def)
  obtain r1 s1 where rt: "runTargets (prototype (get a Repository)) Repository s = (r1, s1)"
    by fastforce
  then have rt': "runTargets (calm_object (prototype (get a Repository))) Repository (hush s) =
      (r1, hush s1)"
    by (simp add: runTargets_calm)
  show ?thesis
  proof (cases r1)
    case (Inl e)
    with Some rt rt' show ?thesis
      by (simp add: process_def hush_fields inst proto)
  next
    case (Inr d)
    show ?thesis
    proof (cases "Repository = ''AccessRepository''")
      case False
      with Some rt rt' Inr show ?thesis
        by (simp add: process_def hush_fields hush_updates inst proto)
    next
      case True
      obtain r2 s2 where rn: "run_nested ''AccessRepository'' (keys (get a ''AccessRepository''))
          ([provenance] @ d) s1 = (r2, s2)"
        by fastforce
      then have rn': "run_nested ''AccessRepository''
          (map (\<lambda>(key, sub). (key, calm_object sub)) (keys (get a ''AccessRepository'')))
          ([provenance] @ d) (hush s1) = (r2, hush s2)"
        by (simp add: run_nested_calm)
      from Some rt rt' Inr rn rn' True show ?thesis
        by (cases r2) (simp_all add: process_def hush_fields hush_updates inst proto subs)
    qed
  qed
qed

lemma process_all_calm:
  "process_all repos (hush s) = map_prod id hush (process_all repos s)"
proof (induction repos arbitrary: s)
  case Nil
  show ?case by simp
next
  case (Cons Repository repos)
  obtain r1 s1 where p: "process Repository s = (r1, s1)"
    by fastforce
  then have p': "process Repository (hush s) = (r1, hush s1)"
    by (simp add: process_calm)
  show ?case
    using Cons.IH by (cases r1) (simp_all add: p p')
qed

lemma setup_app_calm:
  "setup_app (calm_env env) (hush s) = map_prod id hush (setup_app env s)"
  by (simp add: setup_app_def calm_env_def hush_def Let_def split: option.splits)

lemma write_entries_calm:
  "write_entries (calm_env env) es (hush s) = map_prod id hush (write_entries env es s)"
proof (induction es arbitrary: s)
  case Nil
  show ?case by simp
next
  case (Cons entry es)
  obtain repoName data where entry: "entry = (repoName, data)"
    by (cases entry)
  have env: "fails (calm_env env) = fails env"
    by (simp add: calm_env_def)
  show ?case
  proof (cases "fails env (WriteFile (sql_file repoName))")
    case (Some e)
    then show ?thesis
      by (simp add: entry env)
  next
    case None
    show ?thesis
    proof (cases "files s")
      case None
      with \<open>fails env (WriteFile (sql_file repoName)) = None\<close> show ?thesis
        by (simp add: entry env hush_fields)
    next
      case (Some dir)
      with \<open>fails env (WriteFile (sql_file repoName)) = None\<close> Cons.IH show ?thesis
        by (simp add: entry env hush_fields hush_updates [symmetric])
    qed
  qed
qed

lemma stats_calm: "stats (hush s) = hush (stats s)"
  by (simp add: stats_def hush_def)

lemma close_calm: "close (calm_env env) (hush s) = map_prod id hush (close env s)"
  by (cases "app s")
    (simp_all add: close_def calm_env_def hush_def Let_def split: option.splits)

lemma try_block_calm:
  "try_block repos (calm_env env) (hush s) = map_prod id hush (try_block repos env s)"
proof -
  obtain ra s1 where a: "setup_app env s = (ra, s1)"
    by fastforce
  then have a': "setup_app (calm_env env) (hush s) = (ra, hush s1)"
    by (simp add: setup_app_calm)
  obtain rb s2 where b: "process_all repos s1 = (rb, s2)"
    by fastforce
  then have b': "process_all repos (hush s1) = (rb, hush s2)"
    by (simp add: process_all_calm)
  obtain rw s3 where c: "write_files env s2 = (rw, s3)"
    by fastforce
  then have c': "write_files (calm_env env) (hush s2) = (rw, hush s3)"
    by (simp add: write_files_def write_entries_calm hush_fields)
  show ?thesis
    unfolding try_block_def a a'
    by (cases ra; cases rb; cases rw) (simp_all add: b b' c c' stats_calm)
qed

lemma run_calm: "run repos (calm_env env) (hush s) = map_prod id hush (run repos env s)"
proof -
  obtain r0 s0 where body: "try_block repos env s = (r0, s0)"
    by fastforce
  then have body': "try_block repos (calm_env env) (hush s) = (r0, hush s0)"
    by (simp add: try_block_calm)
  obtain rc sc where fin: "close env s0 = (rc, sc)"
    by fastforce
  then have fin': "close (calm_env env) (hush s0) = (rc, hush sc)"
    by (simp add: close_calm)
  show ?thesis
    unfolding run_def body body'
    by (cases rc) (simp_all add: fin fin')
qed

lemma hush_new: "hush (new_SqlGenerator dir w) = new_SqlGenerator dir w"
  by (simp add: hush_def new_SqlGenerator_def)

lemma queries_logged: "queries (foldl logQuery l stmts) = queries l @ stmts"
  by (induction stmts arbitrary: l) (simp_all add: logQuery_def)

text \<open>
  Claim C4 against the code. The comment at the call says that errors still generate SQL,
  and a call that rejects is logged and skipped over, as the lemmas after this theorem
  show. A call that throws before it returns a promise is not: the \<open>catch\<close> handler
  is attached to the promise the call returns and there is no \<open>try\<close> around the
  call, so the exception leaves \<open>runTargets\<close>. In this run the first method
  throws: the error is not logged with its label, the next method is never invoked, no
  result is stored and no file is written, and the exit status is 1.
\<close>

theorem thrown_call_aborts_run:
  "snd throwing_run = 1 \<and>
   results (fst throwing_run) = [] \<and>
   files (fst throwing_run) = Some Map.empty \<and>
   trace (fst throwing_run) = [Invoke ''RepoC'' ''hasty'' [], Teardown, AppClose] \<and>
   console (fst throwing_run) =
     [Err ''TypeError: ids is undefined'', Log ''Something went wrong'']"
  by (simp add: throwing_run_def throwing_env_def RepoC_def hasty_def findAll_def main_def
      run_def try_block_def setup_app_def process_def runTargets_def getPropertyNames_def
      close_def new_SqlGenerator_def invoke_case_def default_case_def clear_def logQuery_def
      no_failure_def constructor_def)

text \<open>
  The path that works. For every invocation case whose call returns a promise that
  rejects, the error is printed with the label of the case and the loop goes on with the
  next case; the case contributes a block exactly when statements were recorded during
  the call. The run as a whole is the run in which every such call had resolved instead,
  but for the error lines on the console: the same result, the same result record, the
  same files and the same calls.
\<close>

lemma rejected_call_logged_run_continues:
  assumes "target (params q) (world s) = ((stmts, Rejected e), w')"
  shows "(\<exists>s1.
      run_queries label key target (q # rest) data s =
        run_queries label key target rest
          (if stmts = [] then data else data @ [block (queryLabel label key (name q)) stmts]) s1 \<and>
      Err (queryLabel label key (name q) @ '' error: '' @ e) \<in> set (console s1)) \<and>
    fst (run repos (calm_env env) (new_SqlGenerator dir w)) =
      fst (run repos env (new_SqlGenerator dir w)) \<and>
    results (snd (run repos (calm_env env) (new_SqlGenerator dir w))) =
      results (snd (run repos env (new_SqlGenerator dir w))) \<and>
    files (snd (run repos (calm_env env) (new_SqlGenerator dir w))) =
      files (snd (run repos env (new_SqlGenerator dir w))) \<and>
    trace (snd (run repos (calm_env env) (new_SqlGenerator dir w))) =
      trace (snd (run repos env (new_SqlGenerator dir w))) \<and>
    console (snd (run repos (calm_env env) (new_SqlGenerator dir w))) =
      filter (\<lambda>l. \<not> is_Err l) (console (snd (run repos env (new_SqlGenerator dir w))))"
proof (intro conjI)
  let ?ql = "queryLabel label key (name q)"
  let ?s2 = "s\<lparr>sqlLogger := foldl logQuery (clear (sqlLogger s)) stmts, world := w',
      trace := trace s @ [Invoke label key (params q)],
      console := console s @ [Err (?ql @ '' error: '' @ e)]\<rparr>"
  have ic: "invoke_case label key target q s = (Inr (), ?s2)"
    using assms by (simp add: invoke_case_def Let_def)
  have recorded: "queries (sqlLogger ?s2) = stmts"
    by (simp add: queries_logged clear_def)
  show "\<exists>s1.
      run_queries label key target (q # rest) data s =
        run_queries label key target rest
          (if stmts = [] then data else data @ [block ?ql stmts]) s1 \<and>
      Err (?ql @ '' error: '' @ e) \<in> set (console s1)"
  proof (cases "stmts = []")
    case True
    let ?s3 = "?s2\<lparr>console := console ?s2 @ [Warn (''No queries recorded for '' @ ?ql)]\<rparr>"
    have "run_queries label key target (q # rest) data s =
        run_queries label key target rest data ?s3"
      unfolding run_queries.simps ic using recorded True by simp
    with True show ?thesis
      by (intro exI [of _ ?s3]) simp
  next
    case False
    have "run_queries label key target (q # rest) data s =
        run_queries label key target rest (data @ [block ?ql stmts]) ?s2"
      unfolding run_queries.simps ic using recorded False by simp
    with False show ?thesis
      by (intro exI [of _ ?s2]) simp
  qed
next
  let ?calm = "run repos (calm_env env) (new_SqlGenerator dir w)"
  let ?orig = "run repos env (new_SqlGenerator dir w)"
  have sim: "?calm = map_prod id hush ?orig"
    using run_calm [of repos env "new_SqlGenerator dir w"] by (simp add: hush_new)
  show "fst ?calm = fst ?orig"
    unfolding sim by simp
  show "results (snd ?calm) = results (snd ?orig)"
    unfolding sim by (simp add: hush_fields)
  show "files (snd ?calm) = files (snd ?orig)"
    unfolding sim by (simp add: hush_fields)
  show "trace (snd ?calm) = trace (snd ?orig)"
    unfolding sim by (simp add: hush_fields)
  show "console (snd ?calm) = filter (\<lambda>l. \<not> is_Err l) (console (snd ?orig))"
    unfolding sim by (simp add: hush_fields)
qed

lemma rejecting_run_eval:
  "run [''RepoB''] rejecting_env (new_SqlGenerator None ()) =
     (Inr (),
      \<lparr>app = Some \<lparr>get = (\<lambda>Repository. RepoB)\<rparr>,
       sqlLogger = \<lparr>queries = [''SELECT * FROM a'']\<rparr>,
       results = [(''RepoB'', [provenance,
         ''-- RepoB.lookup (by id)'' @ [CHR 0x0A] @ ''SELECT * FROM b WHERE id = $1'',
         ''-- RepoB.findAll'' @ [CHR 0x0A] @ ''SELECT * FROM a''])],
       console = [Err ''RepoB.lookup (by id) error: Error: no row'',
         Err ''RepoB.broken error: Error: bad argument'',
         Warn ''No queries recorded for RepoB.broken'',
         Log ''Wrote 1 files'', Log ''Generated 3 queries''],
       files = Some [''repo.b.sql'' \<mapsto>
         provenance @ [CHR 0x0A, CHR 0x0A] @
         ''-- RepoB.lookup (by id)'' @ [CHR 0x0A] @ ''SELECT * FROM b WHERE id = $1'' @
         [CHR 0x0A, CHR 0x0A] @ ''-- RepoB.findAll'' @ [CHR 0x0A] @ ''SELECT * FROM a'' @
         [CHR 0x0A]],
       world = (),
       trace = [Invoke ''RepoB'' ''lookup'' [''id-1''], Invoke ''RepoB'' ''broken'' [],
         Invoke ''RepoB'' ''findAll'' [], Teardown, AppClose]\<rparr>)"
  by (simp add: rejecting_env_def RepoB_def findAll_def lookup_def broken_def run_def
      try_block_def setup_app_def process_def runTargets_def getPropertyNames_def
      write_files_def stats_def close_def new_SqlGenerator_def invoke_case_def default_case_def
      clear_def logQuery_def queryLabel_def block_def provenance_def sql_file_def filename_def
      is_upper_def toLowerCase_def no_failure_def constructor_def digits.simps)

lemma rejected_call_logged_run_continues_example:
  "lookup (params \<lparr>name = Some ''by id'', params = [''id-1'']\<rparr>)
       (world (new_SqlGenerator None () :: (string, unit) SqlGenerator)) =
     (([''SELECT * FROM b WHERE id = $1''], Rejected ''Error: no row''), ()) \<and>
   (\<exists>s1.
      run_queries ''RepoB'' ''lookup'' lookup [\<lparr>name = Some ''by id'', params = [''id-1'']\<rparr>] []
          (new_SqlGenerator None ()) =
        (Inr [''-- RepoB.lookup (by id)'' @ [CHR 0x0A] @ ''SELECT * FROM b WHERE id = $1''], s1) \<and>
      Err ''RepoB.lookup (by id) error: Error: no row'' \<in> set (console s1)) \<and>
   fst (run [''RepoB''] rejecting_env (new_SqlGenerator None ())) = Inr () \<and>
   fst (run [''RepoB''] (calm_env rejecting_env) (new_SqlGenerator None ())) = Inr () \<and>
   results (snd (run [''RepoB''] (calm_env rejecting_env) (new_SqlGenerator None ()))) =
     [(''RepoB'', [provenance,
        ''-- RepoB.lookup (by id)'' @ [CHR 0x0A] @ ''SELECT * FROM b WHERE id = $1'',
        ''-- RepoB.findAll'' @ [CHR 0x0A] @ ''SELECT * FROM a''])] \<and>
   console (snd (run [''RepoB''] (calm_env rejecting_env) (new_SqlGenerator None ()))) =
     [Warn ''No queries recorded for RepoB.broken'',
      Log ''Wrote 1 files'', Log ''Generated 3 queries'']"
proof -
  let ?q = "\<lparr>name = Some ''by id'', params = [''id-1'']\<rparr> :: string GenerateSqlQueries"
  let ?s = "new_SqlGenerator None () :: (string, unit) SqlGenerator"
  have called: "lookup (params ?q) (world ?s) =
      (([''SELECT * FROM b WHERE id = $1''], Rejected ''Error: no row''), ())"
    by (simp add: lookup_def)
  show ?thesis
    using rejected_call_logged_run_continues [where target = lookup and q = ?q and s = ?s
        and label = "''RepoB''" and key = "''lookup''" and rest = "[]" and data = "[]"
        and repos = "[''RepoB'']" and env = rejecting_env and dir = None and w = "()",
        OF called] called
    by (simp add: rejecting_run_eval queryLabel_def block_def)
qed

end
